theory Spec2Isabelle
  imports Main
begin

section \<open>The data prefetch service of the banking dashboard\<close>

text \<open>
  The development follows \<^verbatim>\<open>src/lib/data-prefetch.ts\<close>: the class
  \<^verbatim>\<open>DataPrefetchService\<close> with its two private maps, the cache operations
  \<^verbatim>\<open>get\<close>, \<^verbatim>\<open>set\<close>, \<^verbatim>\<open>clear\<close>, \<^verbatim>\<open>clearAll\<close>, the coalescing
  \<^verbatim>\<open>prefetch\<close> and the orchestrator \<^verbatim>\<open>prefetchDashboard\<close>.

  The service runs on a JavaScript event loop. Each synchronous run of code is one
  atomic step of the model; the steps are the calls of the public methods and the
  settlement of a producer's promise, at which the handlers attached by
  \<^verbatim>\<open>prefetch\<close> run. The reading of \<^verbatim>\<open>Date.now()\<close> is an argument of every
  step that reads the clock.
\<close>

subsection \<open>Values, cache entries, promises\<close>

text \<open>Payloads are JSON-like JavaScript values; \<^verbatim>\<open>null\<close> and \<^verbatim>\<open>undefined\<close> are distinct.\<close>

datatype jsval =
    JNull
  | JUndefined
  | JBool bool
  | JNum int
  | JStr string
  | JArr "jsval list"
  | JObj "(string \<times> jsval) list"

text \<open>
  \<^verbatim>\<open>interface CacheEntry<T> { data: T; timestamp: number; ttl: number }\<close>.
  Times are milliseconds as \<^verbatim>\<open>Date.now()\<close> gives them, hence integers; the
  time to live is taken in whole milliseconds as well.
\<close>

record cache_entry =
  data :: jsval
  timestamp :: int
  ttl :: int

text \<open>The state of a promise; a rejection carries the value thrown.\<close>

datatype settlement = Pending | Fulfilled jsval | Rejected jsval

text \<open>
  The promise built in \<^verbatim>\<open>prefetch\<close> by
  \<^verbatim>\<open>fetchFn().then(...).catch(...)\<close>: its two handlers close over \<^verbatim>\<open>key\<close> and
  \<^verbatim>\<open>ttl\<close>, and it settles when the producer's promise does.
\<close>

record task =
  tkey :: string
  tttl :: int
  tstate :: settlement

text \<open>
  The service object. \<open>cache\<close> and \<open>prefetchPromises\<close> are the two private maps of
  the class; \<open>promises\<close> is the store of the promise objects that \<^verbatim>\<open>prefetch\<close> has
  created, addressed by the order of their creation (\<open>allocated\<close> counts them);
  \<open>invoked\<close> records, in order, every producer that has been called.
\<close>

record service =
  cache :: "string \<rightharpoonup> cache_entry"
  prefetchPromises :: "string \<rightharpoonup> nat"
  promises :: "nat \<rightharpoonup> task"
  allocated :: nat
  invoked :: "string list"

definition new_service :: service where
  "new_service = \<lparr>cache = Map.empty, prefetchPromises = Map.empty,
     promises = Map.empty, allocated = 0, invoked = []\<rparr>"

definition DEFAULT_TTL :: int where
  "DEFAULT_TTL = 5 * 60 * 1000"

text \<open>A parameter \<^verbatim>\<open>ttl: number = this.DEFAULT_TTL\<close>: the default replaces an omitted argument.\<close>

definition ttl_arg :: "int option \<Rightarrow> int" where
  "ttl_arg a = (case a of None \<Rightarrow> DEFAULT_TTL | Some d \<Rightarrow> d)"

subsection \<open>The cache store\<close>

text \<open>
  \<^verbatim>\<open>get(key)\<close>: \<^verbatim>\<open>null\<close> when there is no entry; a stale entry is deleted and
  \<^verbatim>\<open>null\<close> returned; otherwise the entry's data, whatever it is.
\<close>

definition get :: "string \<Rightarrow> int \<Rightarrow> service \<Rightarrow> jsval \<times> service" where
  "get key now s =
     (case cache s key of
        None \<Rightarrow> (JNull, s)
      | Some entry \<Rightarrow>
          if now - timestamp entry > ttl entry
          then (JNull, s\<lparr>cache := (cache s)(key := None)\<rparr>)
          else (data entry, s))"

text \<open>\<^verbatim>\<open>set(key, data, ttl)\<close>: stores a new entry stamped with the current time.\<close>

definition set_entry :: "string \<Rightarrow> jsval \<Rightarrow> int option \<Rightarrow> int \<Rightarrow> service \<Rightarrow> service" where
  "set_entry key d dur now s =
     s\<lparr>cache := (cache s)(key \<mapsto> \<lparr>data = d, timestamp = now, ttl = ttl_arg dur\<rparr>)\<rparr>"

definition clear :: "string \<Rightarrow> service \<Rightarrow> service" where
  "clear key s = s\<lparr>cache := (cache s)(key := None)\<rparr>"

definition clearAll :: "service \<Rightarrow> service" where
  "clearAll s = s\<lparr>cache := Map.empty, prefetchPromises := Map.empty\<rparr>"

subsection \<open>The prefetch coordinator\<close>

text \<open>
  A producer \<^verbatim>\<open>fetchFn: () => Promise<T>\<close>, known by a name. Calling it either
  hands back a promise, which settles in a later step, or throws before any promise
  exists.
\<close>

datatype fetchFn = Async string | Throwing string jsval

fun fname :: "fetchFn \<Rightarrow> string" where
  "fname (Async n) = n"
| "fname (Throwing n e) = n"

text \<open>
  What an \<^verbatim>\<open>async\<close> method hands to its caller is a promise of its own. \<open>Value v\<close>:
  the method returned the plain value \<open>v\<close>, the promise is fulfilled with it.
  \<open>Follows p\<close>: the method returned the promise \<open>p\<close> of the store, and the caller's
  promise takes the settlement of \<open>p\<close>. \<open>Thrown e\<close>: the body threw \<open>e\<close>, the
  promise is rejected with it.
\<close>

datatype ret = Value jsval | Follows nat | Thrown jsval

definition result_of :: "service \<Rightarrow> ret \<Rightarrow> settlement" where
  "result_of s r =
     (case r of
        Value v \<Rightarrow> Fulfilled v
      | Thrown e \<Rightarrow> Rejected e
      | Follows p \<Rightarrow> (case promises s p of None \<Rightarrow> Pending | Some t \<Rightarrow> tstate t))"

text \<open>
  \<^verbatim>\<open>prefetch(key, fetchFn, ttl)\<close>. The body has no \<^verbatim>\<open>await\<close>, so it runs as one
  step: the cache is asked first (\<^verbatim>\<open>cached !== null\<close>), then the table of running
  fetches, and only then the producer is called, its promise extended by the two
  handlers, and the extended promise registered under the key.
\<close>

definition prefetch ::
  "string \<Rightarrow> fetchFn \<Rightarrow> int option \<Rightarrow> int \<Rightarrow> service \<Rightarrow> ret \<times> service" where
  "prefetch key fetchFn dur now s =
     (case get key now s of (cached, s1) \<Rightarrow>
        if cached \<noteq> JNull then (Value cached, s1)
        else
          (case prefetchPromises s1 key of
             Some existingPromise \<Rightarrow> (Follows existingPromise, s1)
           | None \<Rightarrow>
               (case fetchFn of
                  Throwing n e \<Rightarrow> (Thrown e, s1\<lparr>invoked := invoked s1 @ [n]\<rparr>)
                | Async n \<Rightarrow>
                    (Follows (allocated s1),
                     s1\<lparr>prefetchPromises := (prefetchPromises s1)(key \<mapsto> allocated s1),
                        promises := (promises s1)(allocated s1 \<mapsto>
                          \<lparr>tkey = key, tttl = ttl_arg dur, tstate = Pending\<rparr>),
                        allocated := Suc (allocated s1),
                        invoked := invoked s1 @ [n]\<rparr>))))"

text \<open>
  The producer's promise settles: it resolves with a value or rejects with an error.
  The handler that \<^verbatim>\<open>prefetch\<close> attached then runs. On success it stores the data
  under the key with the time to live of the call, deletes the key from
  \<open>prefetchPromises\<close> and passes the data on; on failure it deletes the key and throws
  the error again. Both delete by key, whichever promise is registered there. A promise
  settles once: a second settlement changes nothing.
\<close>

datatype outcome = Resolves jsval | Rejects jsval

definition settle :: "nat \<Rightarrow> outcome \<Rightarrow> int \<Rightarrow> service \<Rightarrow> service" where
  "settle p out now s =
     (case promises s p of
        None \<Rightarrow> s
      | Some t \<Rightarrow>
          if tstate t \<noteq> Pending then s
          else
            (case out of
               Resolves d \<Rightarrow>
                 (let s1 = set_entry (tkey t) d (Some (tttl t)) now s
                  in s1\<lparr>prefetchPromises := (prefetchPromises s1)(tkey t := None),
                        promises := (promises s1)(p \<mapsto> t\<lparr>tstate := Fulfilled d\<rparr>)\<rparr>)
             | Rejects e \<Rightarrow>
                 s\<lparr>prefetchPromises := (prefetchPromises s)(tkey t := None),
                   promises := (promises s)(p \<mapsto> t\<lparr>tstate := Rejected e\<rparr>)\<rparr>))"

text \<open>Several calls of \<^verbatim>\<open>prefetch\<close> with the same arguments, one per clock reading.\<close>

fun prefetch_n ::
  "string \<Rightarrow> fetchFn \<Rightarrow> int option \<Rightarrow> int list \<Rightarrow> service \<Rightarrow> ret list \<times> service" where
  "prefetch_n key fetchFn dur [] s = ([], s)"
| "prefetch_n key fetchFn dur (now # nows) s =
     (case prefetch key fetchFn dur now s of (r, s1) \<Rightarrow>
        (case prefetch_n key fetchFn dur nows s1 of (rs, s2) \<Rightarrow> (r # rs, s2)))"

subsection \<open>The dashboard orchestrator\<close>

text \<open>The health probe \<^verbatim>\<open>await backendAPI.isHealthy()\<close> answers or throws.\<close>

datatype probe = Healthy bool | ProbeThrows jsval

text \<open>
  Modelled from the spec: the resource producers of the module
  \<^verbatim>\<open>@/lib/backend-api\<close>, whose methods \<^verbatim>\<open>getAccounts\<close>, \<^verbatim>\<open>getAccountsSummary\<close>,
  \<^verbatim>\<open>getTransactions\<close>, \<^verbatim>\<open>getTransactionStats\<close>, \<^verbatim>\<open>getTransactionRecommendations\<close>,
  \<^verbatim>\<open>getSavingsSummary\<close>, \<^verbatim>\<open>getComprehensiveInsights\<close> and \<^verbatim>\<open>getPrivacyScore\<close>
  are not among the sources. Each is an asynchronous call keyed by the user identifier;
  the producer is named by the method and the user it is called for.
\<close>

definition backendAPI :: "string \<Rightarrow> string \<Rightarrow> fetchFn" where
  "backendAPI method userId = Async (method @ ''('' @ userId @ '')'')"

text \<open>
  The array \<^verbatim>\<open>prefetchTasks\<close> of \<^verbatim>\<open>prefetchDashboard\<close>: for each call its key
  (a template literal ending in the user identifier), its producer and its time to
  live, in the order of the source.
\<close>

definition prefetchTasks :: "string \<Rightarrow> (string \<times> fetchFn \<times> int) list" where
  "prefetchTasks userId =
     [(''accounts:'' @ userId, backendAPI ''getAccounts'' userId, 5 * 60 * 1000),
      (''accounts-summary:'' @ userId, backendAPI ''getAccountsSummary'' userId, 5 * 60 * 1000),
      (''transactions:'' @ userId, backendAPI ''getTransactions'' userId, 2 * 60 * 1000),
      (''transactions-stats:'' @ userId, backendAPI ''getTransactionStats'' userId, 2 * 60 * 1000),
      (''transactions-recommendations:'' @ userId,
         backendAPI ''getTransactionRecommendations'' userId, 5 * 60 * 1000),
      (''savings-summary:'' @ userId, backendAPI ''getSavingsSummary'' userId, 5 * 60 * 1000),
      (''ai-insights:'' @ userId, backendAPI ''getComprehensiveInsights'' userId, 10 * 60 * 1000),
      (''privacy-score:'' @ userId, backendAPI ''getPrivacyScore'' userId, 10 * 60 * 1000)]"

text \<open>
  The elements of the array are evaluated from left to right, each a call of
  \<^verbatim>\<open>prefetch\<close>; \<open>clk i\<close> is the clock reading during call number \<open>i\<close>.
\<close>

fun issue ::
  "(nat \<Rightarrow> int) \<Rightarrow> nat \<Rightarrow> (string \<times> fetchFn \<times> int) list \<Rightarrow> service \<Rightarrow> ret list \<times> service" where
  "issue clk i [] s = ([], s)"
| "issue clk i ((key, fetchFn, dur) # rest) s =
     (case prefetch key fetchFn (Some dur) (clk i) s of (r, s1) \<Rightarrow>
        (case issue clk (Suc i) rest s1 of (rs, s2) \<Rightarrow> (r # rs, s2)))"

text \<open>
  \<^verbatim>\<open>prefetchDashboard(userId)\<close>, from the point where the health probe has answered.
  An unhealthy or throwing probe ends the method at once. Otherwise the eight calls are
  issued, \<^verbatim>\<open>Promise.allSettled(prefetchTasks).catch(...)\<close> builds a join over them
  that is neither awaited nor returned, and the method ends. The result is the
  settlement of the method's own promise, which is \<^verbatim>\<open>undefined\<close> on every path,
  together with the promises of the calls it issued.
\<close>

definition prefetchDashboard ::
  "string \<Rightarrow> probe \<Rightarrow> (nat \<Rightarrow> int) \<Rightarrow> service \<Rightarrow> (settlement \<times> ret list) \<times> service" where
  "prefetchDashboard userId health clk s =
     (case health of
        ProbeThrows e \<Rightarrow> ((Fulfilled JUndefined, []), s)
      | Healthy healthy \<Rightarrow>
          if \<not> healthy then ((Fulfilled JUndefined, []), s)
          else
            (case issue clk 0 (prefetchTasks userId) s of
               (tasks, s1) \<Rightarrow> ((Fulfilled JUndefined, tasks), s1)))"

text \<open>A run of settlements, each with the promise settled, its outcome and the time.\<close>

fun settle_all :: "(nat \<times> outcome \<times> int) list \<Rightarrow> service \<Rightarrow> service" where
  "settle_all [] s = s"
| "settle_all ((p, out, now) # evs) s = settle_all evs (settle p out now s)"

text \<open>
  The join \<^verbatim>\<open>Promise.allSettled(prefetchTasks)\<close> that \<^verbatim>\<open>prefetchDashboard\<close> builds:
  a promise that is pending while one of the tasks is, and is fulfilled, never rejected,
  with one record per task once all have settled. The \<^verbatim>\<open>catch\<close> attached to it
  passes a fulfilment on. Its state is a function of the tasks' states, so it is read off
  the service at any later point.
\<close>

definition settled_entry :: "settlement \<Rightarrow> jsval" where
  "settled_entry r =
     (case r of
        Fulfilled v \<Rightarrow> JObj [(''status'', JStr ''fulfilled''), (''value'', v)]
      | Rejected e \<Rightarrow> JObj [(''status'', JStr ''rejected''), (''reason'', e)]
      | Pending \<Rightarrow> JUndefined)"

definition unsettled :: "service \<Rightarrow> ret \<Rightarrow> bool" where
  "unsettled s r = (result_of s r = Pending)"

definition allSettled :: "service \<Rightarrow> ret list \<Rightarrow> settlement" where
  "allSettled s rets =
     (if list_ex (unsettled s) rets then Pending
      else Fulfilled (JArr (map (\<lambda>r. settled_entry (result_of s r)) rets)))"

subsection \<open>Auxiliary notions for the statements\<close>

text \<open>
  The cache has nothing but \<^verbatim>\<open>null\<close> to give for a key: there is no entry, or the
  entry's data is \<^verbatim>\<open>null\<close>.
\<close>

definition null_only :: "string \<Rightarrow> service \<Rightarrow> bool" where
  "null_only key s = (case cache s key of None \<Rightarrow> True | Some entry \<Rightarrow> data entry = JNull)"

text \<open>A clock that reads the same time at every call of one synchronous run.\<close>

definition steady :: "int \<Rightarrow> nat \<Rightarrow> int" where
  "steady t i = t"

text \<open>The key convention: a resource name, a colon, the user identifier.\<close>

definition cache_key :: "string \<Rightarrow> string \<Rightarrow> string" where
  "cache_key resource userId = resource @ '':'' @ userId"

text \<open>The prefixes of the template literals in \<^verbatim>\<open>prefetchDashboard\<close>, in source order.\<close>

definition key_prefixes :: "string list" where
  "key_prefixes =
     [''accounts'', ''accounts-summary'', ''transactions'', ''transactions-stats'',
      ''transactions-recommendations'', ''savings-summary'', ''ai-insights'',
      ''privacy-score'']"

text \<open>
  The resource names as the interface description lists them, and the keys the convention
  builds from them.
\<close>

definition spec_resource_names :: "string list" where
  "spec_resource_names =
     [''accounts'', ''accounts-summary'', ''transactions'', ''transaction-stats'',
      ''transaction-recommendations'', ''savings-summary'', ''comprehensive-insights'',
      ''privacy-score'']"

definition spec_keys :: "string \<Rightarrow> string list" where
  "spec_keys userId = map (\<lambda>r. cache_key r userId) spec_resource_names"

text \<open>
  A run in which the eight producers of one dashboard prefetch settle out of order; the
  fourth, the transaction statistics, rejects.
\<close>

definition example_settlements :: "(nat \<times> outcome \<times> int) list" where
  "example_settlements =
     [(3, Rejects (JStr ''HTTP 500''), 10),
      (0, Resolves (JArr [JStr ''acc-1'']), 20),
      (7, Resolves (JNum 82), 25),
      (1, Resolves (JObj [(''total'', JNum 3)]), 30),
      (2, Resolves (JArr []), 35),
      (4, Resolves (JArr [JStr ''save more'']), 40),
      (5, Resolves (JNum 5), 45),
      (6, Resolves (JStr ''ok''), 50)]"

text \<open>
  A call of \<^verbatim>\<open>prefetch\<close> starts a fetch when it passes both checks: the cache gives
  \<^verbatim>\<open>null\<close> and no fetch of the key is registered.
\<close>

definition starts_fetch :: "string \<Rightarrow> int \<Rightarrow> service \<Rightarrow> bool" where
  "starts_fetch key now s =
     (case get key now s of (cached, s1) \<Rightarrow> cached = JNull \<and> prefetchPromises s1 key = None)"

text \<open>The service as call number \<open>i\<close> of \<^verbatim>\<open>prefetchDashboard\<close> finds it.\<close>

definition state_before :: "nat \<Rightarrow> string \<Rightarrow> (nat \<Rightarrow> int) \<Rightarrow> service \<Rightarrow> service" where
  "state_before i userId clk s = snd (issue clk 0 (take i (prefetchTasks userId)) s)"

text \<open>A service on which the account list of user \<open>u2\<close> is already cached.\<close>

definition warm_service :: service where
  "warm_service = set_entry ''accounts:u2'' (JArr [JStr ''acc-1'']) None 0 new_service"

section \<open>Properties\<close>

subsection \<open>Reading the cache\<close>

lemma get_fields [simp]:
  "prefetchPromises (snd (get k t s)) = prefetchPromises s"
  "promises (snd (get k t s)) = promises s"
  "allocated (snd (get k t s)) = allocated s"
  "invoked (snd (get k t s)) = invoked s"
  by (simp_all add: get_def split: option.splits)

lemma get_other_key: "k' \<noteq> k \<Longrightarrow> cache (snd (get k t s)) k' = cache s k'"
  by (simp add: get_def split: option.splits)

lemma get_absent: "cache s k = None \<Longrightarrow> get k t s = (JNull, s)"
  by (simp add: get_def)

lemma get_null_then_null_only:
  "fst (get k t s) = JNull \<Longrightarrow> null_only k (snd (get k t s))"
  by (simp add: get_def null_only_def split: option.splits if_splits)

lemma null_only_get:
  "null_only k s \<Longrightarrow> fst (get k t s) = JNull \<and> null_only k (snd (get k t s))"
  by (simp add: get_def null_only_def split: option.splits if_splits)

text \<open>
  C2. After \<open>set(k, v, ttl)\<close> at time \<open>t0\<close>, a \<open>get(k)\<close> at time \<open>t1\<close> returns \<open>v\<close> and
  leaves the service as it is when \<open>t1 - t0 \<le> ttl\<close>; when \<open>t1 - t0 > ttl\<close> it returns
  \<^verbatim>\<open>null\<close> (absent) and the entry is removed from the cache, as \<open>clear(k)\<close> would.
  With the time to live omitted the bound is the default of five minutes.
\<close>

theorem get_after_set:
  "get k t1 (set_entry k v (Some d) t0 s) =
     (if t1 - t0 \<le> d then (v, set_entry k v (Some d) t0 s)
      else (JNull, clear k (set_entry k v (Some d) t0 s)))
   \<and> cache (clear k (set_entry k v (Some d) t0 s)) k = None
   \<and> get k t1 (set_entry k v None t0 s) =
     (if t1 - t0 \<le> 300000 then (v, set_entry k v None t0 s)
      else (JNull, clear k (set_entry k v None t0 s)))"
  by (simp add: get_def set_entry_def clear_def ttl_arg_def DEFAULT_TTL_def)

text \<open>
  C8. \<open>set(k, v, ttl)\<close> writes the entry whatever was there, with the value, the time of
  the call and the time to live passed (five minutes when omitted). After
  \<open>set(k, v1, ttl1)\<close> and then \<open>set(k, v2, ttl)\<close> at time \<open>t1\<close> the service is as if only
  the second had happened, and \<open>get(k)\<close> at time \<open>t2\<close> returns \<open>v2\<close> exactly while
  \<open>t2 - t1 \<le> ttl\<close>, the time to live of the second call.
\<close>

theorem later_set_wins:
  "cache (set_entry k v (Some d) t s) k = Some \<lparr>data = v, timestamp = t, ttl = d\<rparr>
   \<and> cache (set_entry k v None t s) k = Some \<lparr>data = v, timestamp = t, ttl = 300000\<rparr>
   \<and> set_entry k v2 d2 t1 (set_entry k v1 d1 t0 s) = set_entry k v2 d2 t1 s
   \<and> fst (get k t2 (set_entry k v2 (Some d) t1 (set_entry k v1 d1 t0 s))) =
       (if t2 - t1 \<le> d then v2 else JNull)
   \<and> fst (get k t2 (set_entry k v2 None t1 (set_entry k v1 d1 t0 s))) =
       (if t2 - t1 \<le> 300000 then v2 else JNull)"
  by (simp add: get_def set_entry_def ttl_arg_def DEFAULT_TTL_def)

subsection \<open>One call of prefetch\<close>

lemma prefetch_starts:
  assumes "fst (get k t s) = JNull" and "prefetchPromises s k = None"
  shows "prefetch k (Async n) dur t s =
     (Follows (allocated s),
      (snd (get k t s))\<lparr>prefetchPromises := (prefetchPromises s)(k \<mapsto> allocated s),
         promises := (promises s)(allocated s \<mapsto> \<lparr>tkey = k, tttl = ttl_arg dur, tstate = Pending\<rparr>),
         allocated := Suc (allocated s),
         invoked := invoked s @ [n]\<rparr>)"
proof (cases "get k t s")
  case (Pair c s1)
  have f: "prefetchPromises s1 = prefetchPromises s" "promises s1 = promises s"
    "allocated s1 = allocated s" "invoked s1 = invoked s"
    using get_fields[of k t s] Pair by simp_all
  from assms Pair have "c = JNull" by simp
  with Pair f assms(2) show ?thesis by (simp add: prefetch_def)
qed

lemma prefetch_joins:
  assumes "null_only k s" and "prefetchPromises s k = Some p"
  shows "prefetch k f dur t s = (Follows p, snd (get k t s))"
proof (cases "get k t s")
  case (Pair c s1)
  have f: "prefetchPromises s1 = prefetchPromises s"
    using get_fields[of k t s] Pair by simp
  from null_only_get[OF assms(1), of t] Pair have "c = JNull" by simp
  with Pair f assms(2) show ?thesis by (simp add: prefetch_def)
qed

lemma prefetch_n_joins:
  assumes "null_only k s" and "prefetchPromises s k = Some p"
  shows "fst (prefetch_n k f dur nows s) = replicate (length nows) (Follows p)
       \<and> null_only k (snd (prefetch_n k f dur nows s))
       \<and> prefetchPromises (snd (prefetch_n k f dur nows s)) = prefetchPromises s
       \<and> promises (snd (prefetch_n k f dur nows s)) = promises s
       \<and> allocated (snd (prefetch_n k f dur nows s)) = allocated s
       \<and> invoked (snd (prefetch_n k f dur nows s)) = invoked s"
  using assms
proof (induction nows arbitrary: s)
  case Nil
  then show ?case by simp
next
  case (Cons now nows)
  let ?s1 = "snd (get k now s)"
  have step: "prefetch k f dur now s = (Follows p, ?s1)"
    using Cons.prems by (rule prefetch_joins)
  have n1: "null_only k ?s1" using null_only_get[OF Cons.prems(1)] by simp
  have p1: "prefetchPromises ?s1 k = Some p" using Cons.prems(2) by simp
  from Cons.IH[OF n1 p1] step show ?case
    by (cases "prefetch_n k f dur nows ?s1") simp
qed

text \<open>
  A first call on a key that is neither cached nor being fetched, followed by any
  number of further calls before the fetch settles.
\<close>

lemma prefetch_n_starts:
  assumes cold: "fst (get k now s) = JNull"
      and idle: "prefetchPromises s k = None"
  shows "fst (prefetch_n k (Async n) dur (now # later) s)
           = replicate (Suc (length later)) (Follows (allocated s))"
    and "null_only k (snd (prefetch_n k (Async n) dur (now # later) s))"
    and "prefetchPromises (snd (prefetch_n k (Async n) dur (now # later) s)) k
           = Some (allocated s)"
    and "promises (snd (prefetch_n k (Async n) dur (now # later) s)) (allocated s)
           = Some \<lparr>tkey = k, tttl = ttl_arg dur, tstate = Pending\<rparr>"
    and "allocated (snd (prefetch_n k (Async n) dur (now # later) s)) = Suc (allocated s)"
    and "invoked (snd (prefetch_n k (Async n) dur (now # later) s)) = invoked s @ [n]"
proof -
  define s0 where "s0 = (snd (get k now s))\<lparr>prefetchPromises := (prefetchPromises s)(k \<mapsto> allocated s),
         promises := (promises s)(allocated s \<mapsto> \<lparr>tkey = k, tttl = ttl_arg dur, tstate = Pending\<rparr>),
         allocated := Suc (allocated s),
         invoked := invoked s @ [n]\<rparr>"
  have first: "prefetch k (Async n) dur now s = (Follows (allocated s), s0)"
    unfolding s0_def using cold idle by (rule prefetch_starts)
  have n0: "null_only k s0"
    using get_null_then_null_only[OF cold] by (simp add: s0_def null_only_def)
  have p0: "prefetchPromises s0 k = Some (allocated s)" by (simp add: s0_def)
  note rest = prefetch_n_joins[OF n0 p0, of "Async n" dur later]
  have unfold: "prefetch_n k (Async n) dur (now # later) s =
      (Follows (allocated s) # fst (prefetch_n k (Async n) dur later s0),
       snd (prefetch_n k (Async n) dur later s0))"
    using first by (simp split: prod.splits)
  show "fst (prefetch_n k (Async n) dur (now # later) s)
           = replicate (Suc (length later)) (Follows (allocated s))"
    using rest unfold by simp
  show "null_only k (snd (prefetch_n k (Async n) dur (now # later) s))"
    using rest unfold by simp
  show "prefetchPromises (snd (prefetch_n k (Async n) dur (now # later) s)) k
           = Some (allocated s)"
    using rest unfold p0 by simp
  show "promises (snd (prefetch_n k (Async n) dur (now # later) s)) (allocated s)
           = Some \<lparr>tkey = k, tttl = ttl_arg dur, tstate = Pending\<rparr>"
    using rest unfold by (simp add: s0_def)
  show "allocated (snd (prefetch_n k (Async n) dur (now # later) s)) = Suc (allocated s)"
    using rest unfold by (simp add: s0_def)
  show "invoked (snd (prefetch_n k (Async n) dur (now # later) s)) = invoked s @ [n]"
    using rest unfold by (simp add: s0_def)
qed

subsection \<open>Settlement\<close>

lemma settle_pending:
  assumes "promises s p = Some \<lparr>tkey = k, tttl = d, tstate = Pending\<rparr>"
  shows "prefetchPromises (settle p out t s) k = None"
    and "invoked (settle p out t s) = invoked s"
    and "allocated (settle p out t s) = allocated s"
    and "result_of (settle p out t s) (Follows p) =
           (case out of Resolves v \<Rightarrow> Fulfilled v | Rejects e \<Rightarrow> Rejected e)"
    and "cache (settle p out t s) =
           (case out of Resolves v \<Rightarrow> (cache s)(k \<mapsto> \<lparr>data = v, timestamp = t, ttl = d\<rparr>)
                      | Rejects e \<Rightarrow> cache s)"
  using assms
  by (simp_all add: settle_def set_entry_def ttl_arg_def result_of_def Let_def split: outcome.splits)

text \<open>
  C1. Let a key have nothing fresh in the cache (\<open>get\<close> reports \<^verbatim>\<open>null\<close>) and no
  fetch in flight, and let \<open>N = 1 + length later\<close> calls \<open>prefetch(k, producer, ttl)\<close>
  be made before the producer's promise settles. Then the producer is invoked exactly
  once; every call hands back the one promise registered for the key; after each of the
  calls the table of running fetches holds that same single promise for the key, which
  is still pending; and when the producer settles, in the same step the key leaves the
  table, no producer is invoked, and all \<open>N\<close> callers get the same settlement: the value
  the producer resolved with, or the error it rejected with.
\<close>

theorem prefetch_coalesces:
  assumes cold: "fst (get k now s) = JNull"
      and idle: "prefetchPromises s k = None"
      and calls: "prefetch_n k (Async n) dur (now # later) s = (rets, s1)"
  shows "invoked s1 = invoked s @ [n]
       \<and> rets = replicate (Suc (length later)) (Follows (allocated s))
       \<and> (\<forall>m. prefetchPromises (snd (prefetch_n k (Async n) dur (now # take m later) s)) k
                = Some (allocated s))
       \<and> result_of s1 (Follows (allocated s)) = Pending
       \<and> prefetchPromises (settle (allocated s) out t s1) k = None
       \<and> invoked (settle (allocated s) out t s1) = invoked s1
       \<and> map (result_of (settle (allocated s) out t s1)) rets =
           replicate (Suc (length later))
             (case out of Resolves v \<Rightarrow> Fulfilled v | Rejects e \<Rightarrow> Rejected e)"
proof -
  note run = prefetch_n_starts[OF cold idle, of n dur]
  from calls have r: "rets = fst (prefetch_n k (Async n) dur (now # later) s)"
    and s1: "s1 = snd (prefetch_n k (Async n) dur (now # later) s)" by simp_all
  have inv: "invoked s1 = invoked s @ [n]" using run(6)[of later] s1 by simp
  have rets: "rets = replicate (Suc (length later)) (Follows (allocated s))"
    using run(1)[of later] r by simp
  have one: "\<forall>m. prefetchPromises (snd (prefetch_n k (Async n) dur (now # take m later) s)) k
                = Some (allocated s)"
    using run(3) by simp
  have pend: "promises s1 (allocated s) = Some \<lparr>tkey = k, tttl = ttl_arg dur, tstate = Pending\<rparr>"
    using run(4)[of later] s1 by simp
  have res: "result_of s1 (Follows (allocated s)) = Pending"
    using pend by (simp add: result_of_def)
  note fin = settle_pending[OF pend, of out t]
  have all: "map (result_of (settle (allocated s) out t s1)) rets =
           replicate (Suc (length later))
             (case out of Resolves v \<Rightarrow> Fulfilled v | Rejects e \<Rightarrow> Rejected e)"
    using fin(4) rets by simp
  from inv rets one res fin(1) fin(2) all show ?thesis by blast
qed

theorem prefetch_coalesces_witness:
  "fst (get ''tx:u1'' 0 new_service) = JNull
   \<and> prefetchPromises new_service ''tx:u1'' = None
   \<and> fst (prefetch_n ''tx:u1'' (Async ''slowFetch'') (Some 120000) [0, 0] new_service)
        = [Follows 0, Follows 0]
   \<and> invoked (snd (prefetch_n ''tx:u1'' (Async ''slowFetch'') (Some 120000) [0, 0] new_service))
        = [''slowFetch'']
   \<and> map (result_of (settle 0 (Resolves (JObj [(''total'', JNum 3)])) 50
          (snd (prefetch_n ''tx:u1'' (Async ''slowFetch'') (Some 120000) [0, 0] new_service))))
        (fst (prefetch_n ''tx:u1'' (Async ''slowFetch'') (Some 120000) [0, 0] new_service))
        = [Fulfilled (JObj [(''total'', JNum 3)]), Fulfilled (JObj [(''total'', JNum 3)])]"
proof -
  have cold: "fst (get ''tx:u1'' 0 new_service) = JNull"
    by (simp add: get_def new_service_def)
  have idle: "prefetchPromises new_service ''tx:u1'' = None"
    by (simp add: new_service_def)
  have calls: "prefetch_n ''tx:u1'' (Async ''slowFetch'') (Some 120000) (0 # [0]) new_service
      = (fst (prefetch_n ''tx:u1'' (Async ''slowFetch'') (Some 120000) [0, 0] new_service),
         snd (prefetch_n ''tx:u1'' (Async ''slowFetch'') (Some 120000) [0, 0] new_service))"
    by simp
  from prefetch_coalesces[OF cold idle calls, of "Resolves (JObj [(''total'', JNum 3)])" 50] cold idle
  show ?thesis by (auto simp del: prefetch_n.simps simp add: new_service_def)
qed

lemma prefetch_null_only:
  assumes "null_only k s"
  shows "fst (prefetch k f dur t s) =
           (case prefetchPromises s k of
              Some p \<Rightarrow> Follows p
            | None \<Rightarrow> (case f of Async n \<Rightarrow> Follows (allocated s) | Throwing n e \<Rightarrow> Thrown e))"
    and "invoked (snd (prefetch k f dur t s)) =
           (case prefetchPromises s k of Some p \<Rightarrow> invoked s | None \<Rightarrow> invoked s @ [fname f])"
    and "allocated (snd (prefetch k f dur t s)) =
           (case prefetchPromises s k of
              Some p \<Rightarrow> allocated s
            | None \<Rightarrow> (case f of Async n \<Rightarrow> Suc (allocated s) | Throwing n e \<Rightarrow> allocated s))"
proof -
  obtain c s1 where g: "get k t s = (c, s1)" by (cases "get k t s")
  have f: "prefetchPromises s1 = prefetchPromises s" "promises s1 = promises s"
    "allocated s1 = allocated s" "invoked s1 = invoked s"
    using get_fields[of k t s] g by simp_all
  from null_only_get[OF assms, of t] g have c: "c = JNull" by simp
  show "fst (prefetch k f dur t s) =
           (case prefetchPromises s k of
              Some p \<Rightarrow> Follows p
            | None \<Rightarrow> (case f of Async n \<Rightarrow> Follows (allocated s) | Throwing n e \<Rightarrow> Thrown e))"
    using g f c by (simp add: prefetch_def split: option.splits fetchFn.splits)
  show "invoked (snd (prefetch k f dur t s)) =
           (case prefetchPromises s k of Some p \<Rightarrow> invoked s | None \<Rightarrow> invoked s @ [fname f])"
    using g f c by (simp add: prefetch_def split: option.splits fetchFn.splits)
  show "allocated (snd (prefetch k f dur t s)) =
           (case prefetchPromises s k of
              Some p \<Rightarrow> allocated s
            | None \<Rightarrow> (case f of Async n \<Rightarrow> Suc (allocated s) | Throwing n e \<Rightarrow> allocated s))"
    using g f c by (simp add: prefetch_def split: option.splits fetchFn.splits)
qed

lemma prefetch_pending:
  assumes "null_only k s" and "prefetchPromises s k = None"
  shows "result_of (snd (prefetch k (Async n) dur t s)) (Follows (allocated s)) = Pending"
proof -
  have "fst (get k t s) = JNull" using null_only_get[OF assms(1)] by simp
  from prefetch_starts[OF this assms(2), of n dur] show ?thesis
    by (simp add: result_of_def)
qed

text \<open>
  C4. Let \<open>prefetch(k, producer, ttl)\<close> have invoked the producer (the key was neither
  cached nor being fetched), with any number of further callers waiting on the same
  fetch, and let the producer reject with \<open>e\<close>. Then the cache is exactly what it was,
  so \<open>get(k)\<close> still reports \<^verbatim>\<open>null\<close>; the key has left the table of running
  fetches; every waiter's promise is rejected with \<open>e\<close>; and a following
  \<open>prefetch(k, producer', ttl')\<close> invokes \<open>producer'\<close> and hands back a new, pending
  promise rather than the failed one.
\<close>

theorem failure_not_cached:
  assumes cold: "fst (get k now s) = JNull"
      and idle: "prefetchPromises s k = None"
      and calls: "prefetch_n k (Async n) dur (now # later) s = (rets, s1)"
      and fails: "s2 = settle (allocated s) (Rejects e) t s1"
  shows "cache s2 = cache s1
       \<and> fst (get k t' s2) = JNull
       \<and> prefetchPromises s2 k = None
       \<and> map (result_of s2) rets = replicate (Suc (length later)) (Rejected e)
       \<and> invoked (snd (prefetch k f' dur' t' s2)) = invoked s2 @ [fname f']
       \<and> fst (prefetch k (Async n') dur' t' s2) = Follows (Suc (allocated s))
       \<and> result_of (snd (prefetch k (Async n') dur' t' s2)) (Follows (Suc (allocated s))) = Pending"
proof -
  note run = prefetch_n_starts[OF cold idle, of n dur later]
  from calls have r: "rets = fst (prefetch_n k (Async n) dur (now # later) s)"
    and s1: "s1 = snd (prefetch_n k (Async n) dur (now # later) s)" by simp_all
  have pend: "promises s1 (allocated s) = Some \<lparr>tkey = k, tttl = ttl_arg dur, tstate = Pending\<rparr>"
    using run(4) s1 by simp
  note fin = settle_pending[OF pend, of "Rejects e" t]
  have c: "cache s2 = cache s1" using fin(5) fails by simp
  have n2: "null_only k s2" using run(2) s1 c by (simp add: null_only_def)
  have g: "fst (get k t' s2) = JNull" using null_only_get[OF n2] by simp
  have p2: "prefetchPromises s2 k = None" using fin(1) fails by simp
  have a2: "allocated s2 = Suc (allocated s)" using fin(3) run(5) s1 fails by simp
  have all: "map (result_of s2) rets = replicate (Suc (length later)) (Rejected e)"
    using fin(4) run(1) r fails by simp
  have i: "invoked (snd (prefetch k f' dur' t' s2)) = invoked s2 @ [fname f']"
    using prefetch_null_only(2)[OF n2, of f' dur' t'] p2 by simp
  have fr: "fst (prefetch k (Async n') dur' t' s2) = Follows (Suc (allocated s))"
    using prefetch_null_only(1)[OF n2, of "Async n'" dur' t'] p2 a2 by simp
  have pe: "result_of (snd (prefetch k (Async n') dur' t' s2)) (Follows (Suc (allocated s))) = Pending"
    using prefetch_pending[OF n2 p2, of n' dur' t'] a2 by simp
  from c g p2 all i fr pe show ?thesis by blast
qed

theorem failure_not_cached_witness:
  "fst (get ''accounts:u1'' 0 new_service) = JNull
   \<and> prefetchPromises new_service ''accounts:u1'' = None
   \<and> cache (settle 0 (Rejects (JStr ''HTTP 500'')) 40
        (snd (prefetch_n ''accounts:u1'' (Async ''getAccounts'') None [0, 5] new_service)))
      = cache (snd (prefetch_n ''accounts:u1'' (Async ''getAccounts'') None [0, 5] new_service))
   \<and> map (result_of (settle 0 (Rejects (JStr ''HTTP 500'')) 40
        (snd (prefetch_n ''accounts:u1'' (Async ''getAccounts'') None [0, 5] new_service))))
        (fst (prefetch_n ''accounts:u1'' (Async ''getAccounts'') None [0, 5] new_service))
      = [Rejected (JStr ''HTTP 500''), Rejected (JStr ''HTTP 500'')]
   \<and> fst (prefetch ''accounts:u1'' (Async ''retry'') None 60
        (settle 0 (Rejects (JStr ''HTTP 500'')) 40
          (snd (prefetch_n ''accounts:u1'' (Async ''getAccounts'') None [0, 5] new_service))))
      = Follows 1"
proof -
  have cold: "fst (get ''accounts:u1'' 0 new_service) = JNull"
    by (simp add: get_def new_service_def)
  have idle: "prefetchPromises new_service ''accounts:u1'' = None"
    by (simp add: new_service_def)
  have calls: "prefetch_n ''accounts:u1'' (Async ''getAccounts'') None (0 # [5]) new_service
      = (fst (prefetch_n ''accounts:u1'' (Async ''getAccounts'') None [0, 5] new_service),
         snd (prefetch_n ''accounts:u1'' (Async ''getAccounts'') None [0, 5] new_service))"
    by simp
  have a: "allocated new_service = 0" by (simp add: new_service_def)
  from failure_not_cached[OF cold idle calls refl, of "JStr ''HTTP 500''" 40 60 _ None "''retry''"] cold idle a
  show ?thesis by (auto simp del: prefetch_n.simps)
qed

lemma null_only_set_null: "null_only k (set_entry k JNull d t s)"
  by (simp add: null_only_def set_entry_def)

lemma null_only_clear: "null_only k (clear k s)"
  by (simp add: null_only_def clear_def)

text \<open>
  C9. A cached \<^verbatim>\<open>null\<close> cannot be told from no entry. After \<open>set(k, null, ttl)\<close>,
  \<open>get(k)\<close> returns \<^verbatim>\<open>null\<close> at every time, expired or not; \<open>prefetch\<close> on the key
  hands back the same promise and invokes the same producers as it does when the entry
  has been cleared; with no fetch of the key in flight it invokes the producer. When the
  \<^verbatim>\<open>null\<close> was stored by a producer that \<open>prefetch\<close> started and that resolved with
  \<^verbatim>\<open>null\<close>, the entry is in the cache, \<open>get(k)\<close> reports \<^verbatim>\<open>null\<close>, and the next
  \<open>prefetch\<close> invokes the producer a second time.
\<close>

theorem null_payload_is_a_miss:
  "fst (get k t (set_entry k JNull d0 t0 s)) = JNull
   \<and> fst (get k t (set_entry k JNull d0 t0 s)) = fst (get k t (clear k s))
   \<and> fst (prefetch k f d t (set_entry k JNull d0 t0 s)) = fst (prefetch k f d t (clear k s))
   \<and> invoked (snd (prefetch k f d t (set_entry k JNull d0 t0 s)))
       = invoked (snd (prefetch k f d t (clear k s)))
   \<and> (prefetchPromises s k = None \<longrightarrow>
        invoked (snd (prefetch k f d t (set_entry k JNull d0 t0 s))) = invoked s @ [fname f])
   \<and> (fst (get k now s) = JNull \<and> prefetchPromises s k = None \<longrightarrow>
        cache (settle (allocated s) (Resolves JNull) t1 (snd (prefetch k (Async n) d now s))) k
          = Some \<lparr>data = JNull, timestamp = t1, ttl = ttl_arg d\<rparr>
        \<and> fst (get k t
             (settle (allocated s) (Resolves JNull) t1 (snd (prefetch k (Async n) d now s)))) = JNull
        \<and> invoked (snd (prefetch k (Async n) d t
             (settle (allocated s) (Resolves JNull) t1 (snd (prefetch k (Async n) d now s)))))
          = invoked s @ [n, n])"
proof -
  let ?a = "set_entry k JNull d0 t0 s" and ?b = "clear k s"
  have na: "null_only k ?a" by (rule null_only_set_null)
  have nb: "null_only k ?b" by (rule null_only_clear)
  have same: "prefetchPromises ?a = prefetchPromises s" "prefetchPromises ?b = prefetchPromises s"
    "allocated ?a = allocated s" "allocated ?b = allocated s"
    "invoked ?a = invoked s" "invoked ?b = invoked s"
    by (simp_all add: set_entry_def clear_def)
  have g1: "fst (get k t ?a) = JNull" using null_only_get[OF na] by simp
  have g2: "fst (get k t ?b) = JNull" using null_only_get[OF nb] by simp
  have p1: "fst (prefetch k f d t ?a) = fst (prefetch k f d t ?b)"
    using prefetch_null_only(1)[OF na, of f d t] prefetch_null_only(1)[OF nb, of f d t] same
    by (simp split: option.splits fetchFn.splits)
  have p2: "invoked (snd (prefetch k f d t ?a)) = invoked (snd (prefetch k f d t ?b))"
    using prefetch_null_only(2)[OF na, of f d t] prefetch_null_only(2)[OF nb, of f d t] same
    by (simp split: option.splits)
  have p3: "prefetchPromises s k = None \<longrightarrow>
        invoked (snd (prefetch k f d t ?a)) = invoked s @ [fname f]"
    using prefetch_null_only(2)[OF na, of f d t] same by (simp split: option.splits)
  have p4: "cache (settle (allocated s) (Resolves JNull) t1 (snd (prefetch k (Async n) d now s))) k
          = Some \<lparr>data = JNull, timestamp = t1, ttl = ttl_arg d\<rparr>
        \<and> fst (get k t
             (settle (allocated s) (Resolves JNull) t1 (snd (prefetch k (Async n) d now s)))) = JNull
        \<and> invoked (snd (prefetch k (Async n) d t
             (settle (allocated s) (Resolves JNull) t1 (snd (prefetch k (Async n) d now s)))))
          = invoked s @ [n, n]"
    if cold: "fst (get k now s) = JNull" and idle: "prefetchPromises s k = None"
  proof -
    let ?s1 = "snd (prefetch k (Async n) d now s)"
    let ?s2 = "settle (allocated s) (Resolves JNull) t1 ?s1"
    have pend: "promises ?s1 (allocated s) = Some \<lparr>tkey = k, tttl = ttl_arg d, tstate = Pending\<rparr>"
      and inv1: "invoked ?s1 = invoked s @ [n]"
      using prefetch_starts[OF cold idle, of n d] by simp_all
    note fin = settle_pending[OF pend, of "Resolves JNull" t1]
    have c: "cache ?s2 k = Some \<lparr>data = JNull, timestamp = t1, ttl = ttl_arg d\<rparr>"
      using fin(5) by simp
    have n2: "null_only k ?s2" using c by (simp add: null_only_def)
    have g: "fst (get k t ?s2) = JNull" using null_only_get[OF n2] by simp
    have i: "invoked (snd (prefetch k (Async n) d t ?s2)) = invoked s @ [n, n]"
      using prefetch_null_only(2)[OF n2, of "Async n" d t] fin(1) fin(2) inv1 by simp
    from c g i show ?thesis by blast
  qed
  from g1 g2 p1 p2 p3 p4 show ?thesis by presburger
qed

theorem null_payload_is_a_miss_witness:
  "prefetchPromises new_service ''privacy-score:u1'' = None
   \<and> fst (get ''privacy-score:u1'' 0 new_service) = JNull
   \<and> invoked (snd (prefetch ''privacy-score:u1'' (Async ''getPrivacyScore'') (Some 600000) 1
        (set_entry ''privacy-score:u1'' JNull (Some 600000) 0 new_service))) = [''getPrivacyScore'']
   \<and> invoked (snd (prefetch ''privacy-score:u1'' (Async ''getPrivacyScore'') (Some 600000) 1
        (settle 0 (Resolves JNull) 1
          (snd (prefetch ''privacy-score:u1'' (Async ''getPrivacyScore'') (Some 600000) 0 new_service)))))
       = [''getPrivacyScore'', ''getPrivacyScore'']"
proof -
  have idle: "prefetchPromises new_service ''privacy-score:u1'' = None"
    by (simp add: new_service_def)
  have cold: "fst (get ''privacy-score:u1'' 0 new_service) = JNull"
    by (simp add: get_def new_service_def)
  have a: "allocated new_service = 0" "invoked new_service = []" by (simp_all add: new_service_def)
  from null_payload_is_a_miss[of "''privacy-score:u1''" 1 "Some 600000" 0 new_service
      "Async ''getPrivacyScore''" "Some 600000" 0 1 "''getPrivacyScore''"] idle cold a
  show ?thesis by auto
qed

text \<open>
  C10. Let a producer be in flight for a key: the promise \<open>prefetch\<close> built for it is
  pending. \<open>clearAll\<close> empties the cache and the table of running fetches, but the
  promise keeps its handlers; when the producer then resolves with \<open>v\<close>, the success
  handler stores \<open>v\<close> under the key, and \<open>get\<close> returns \<open>v\<close> for as long as that entry is
  fresh.
\<close>

theorem clearAll_then_late_success:
  assumes "promises s p = Some \<lparr>tkey = k, tttl = d, tstate = Pending\<rparr>"
  shows "cache (clearAll s) = Map.empty
       \<and> prefetchPromises (clearAll s) = Map.empty
       \<and> cache (settle p (Resolves v) t (clearAll s)) k = Some \<lparr>data = v, timestamp = t, ttl = d\<rparr>
       \<and> fst (get k t' (settle p (Resolves v) t (clearAll s))) = (if t' - t \<le> d then v else JNull)"
proof -
  have pend: "promises (clearAll s) p = Some \<lparr>tkey = k, tttl = d, tstate = Pending\<rparr>"
    using assms by (simp add: clearAll_def)
  note fin = settle_pending[OF pend, of "Resolves v" t]
  have c: "cache (settle p (Resolves v) t (clearAll s)) k = Some \<lparr>data = v, timestamp = t, ttl = d\<rparr>"
    using fin(5) by simp
  have g: "fst (get k t' (settle p (Resolves v) t (clearAll s))) = (if t' - t \<le> d then v else JNull)"
    using c by (simp add: get_def)
  from c g show ?thesis by (simp add: clearAll_def)
qed

theorem clearAll_then_late_success_witness:
  "promises (snd (prefetch ''accounts:u1'' (Async ''getAccounts'') (Some 300000) 0 new_service)) 0
     = Some \<lparr>tkey = ''accounts:u1'', tttl = 300000, tstate = Pending\<rparr>
   \<and> prefetchPromises (snd (prefetch ''accounts:u1'' (Async ''getAccounts'') (Some 300000) 0 new_service))
       ''accounts:u1'' = Some 0
   \<and> fst (get ''accounts:u1'' 100 (settle 0 (Resolves (JArr [JNum 7])) 80
        (clearAll (snd (prefetch ''accounts:u1'' (Async ''getAccounts'') (Some 300000) 0 new_service)))))
     = JArr [JNum 7]"
proof -
  have p: "promises (snd (prefetch ''accounts:u1'' (Async ''getAccounts'') (Some 300000) 0 new_service)) 0
     = Some \<lparr>tkey = ''accounts:u1'', tttl = 300000, tstate = Pending\<rparr>"
    by (simp add: prefetch_def get_def new_service_def ttl_arg_def)
  have q: "prefetchPromises (snd (prefetch ''accounts:u1'' (Async ''getAccounts'') (Some 300000) 0 new_service))
       ''accounts:u1'' = Some 0"
    by (simp add: prefetch_def get_def new_service_def)
  from clearAll_then_late_success[OF p, of "JArr [JNum 7]" 80 100] p q
  show ?thesis by simp
qed

text \<open>
  C6. When the health probe answers \<^verbatim>\<open>false\<close> or throws, \<open>prefetchDashboard\<close> ends
  with its promise fulfilled (no error), has issued no call of \<open>prefetch\<close>, and leaves
  the service as it found it: no producer invoked, cache and table of running fetches
  untouched.
\<close>

theorem unhealthy_probe_skips:
  "prefetchDashboard u (Healthy False) clk s = ((Fulfilled JUndefined, []), s)
   \<and> prefetchDashboard u (ProbeThrows e) clk s = ((Fulfilled JUndefined, []), s)
   \<and> invoked (snd (prefetchDashboard u (Healthy False) clk s)) = invoked s
   \<and> invoked (snd (prefetchDashboard u (ProbeThrows e) clk s)) = invoked s
   \<and> cache (snd (prefetchDashboard u (Healthy False) clk s)) = cache s
   \<and> cache (snd (prefetchDashboard u (ProbeThrows e) clk s)) = cache s
   \<and> prefetchPromises (snd (prefetchDashboard u (Healthy False) clk s)) = prefetchPromises s
   \<and> prefetchPromises (snd (prefetchDashboard u (ProbeThrows e) clk s)) = prefetchPromises s"
  by (simp add: prefetchDashboard_def)

subsection \<open>Issuing a list of calls on cold keys\<close>

lemma prefetch_cold:
  assumes "cache s k = None" and "prefetchPromises s k = None"
  shows "prefetch k (Async n) dur t s =
     (Follows (allocated s),
      s\<lparr>prefetchPromises := (prefetchPromises s)(k \<mapsto> allocated s),
        promises := (promises s)(allocated s \<mapsto> \<lparr>tkey = k, tttl = ttl_arg dur, tstate = Pending\<rparr>),
        allocated := Suc (allocated s),
        invoked := invoked s @ [n]\<rparr>)"
proof -
  have g: "get k t s = (JNull, s)" using assms(1) by (rule get_absent)
  then have "fst (get k t s) = JNull" by simp
  from prefetch_starts[OF this assms(2), of n dur] g show ?thesis by simp
qed

lemma issue_cold:
  assumes "distinct (map fst tasks)"
      and "\<forall>k \<in> fst ` set tasks. cache s k = None \<and> prefetchPromises s k = None"
      and "\<forall>x \<in> set tasks. fst (snd x) = Async (fname (fst (snd x)))"
  shows "fst (issue clk i tasks s) = map Follows [allocated s ..< allocated s + length tasks]
       \<and> cache (snd (issue clk i tasks s)) = cache s
       \<and> allocated (snd (issue clk i tasks s)) = allocated s + length tasks
       \<and> invoked (snd (issue clk i tasks s)) = invoked s @ map (\<lambda>x. fname (fst (snd x))) tasks
       \<and> (\<forall>j < length tasks. promises (snd (issue clk i tasks s)) (allocated s + j) =
             Some \<lparr>tkey = fst (tasks ! j), tttl = snd (snd (tasks ! j)), tstate = Pending\<rparr>)
       \<and> (\<forall>j < length tasks. prefetchPromises (snd (issue clk i tasks s)) (fst (tasks ! j)) =
             Some (allocated s + j))
       \<and> (\<forall>p < allocated s. promises (snd (issue clk i tasks s)) p = promises s p)
       \<and> (\<forall>k. k \<notin> fst ` set tasks \<longrightarrow>
             prefetchPromises (snd (issue clk i tasks s)) k = prefetchPromises s k)"
  using assms
proof (induction tasks arbitrary: s i)
  case Nil
  then show ?case by simp
next
  case (Cons x rest)
  obtain k f d where x: "x = (k, f, d)" by (cases x)
  obtain n where f: "f = Async n" "fname f = n" using Cons.prems(3) x by (cases f) auto
  define s1 where "s1 = s\<lparr>prefetchPromises := (prefetchPromises s)(k \<mapsto> allocated s),
        promises := (promises s)(allocated s \<mapsto> \<lparr>tkey = k, tttl = d, tstate = Pending\<rparr>),
        allocated := Suc (allocated s),
        invoked := invoked s @ [n]\<rparr>"
  have ck: "cache s k = None" "prefetchPromises s k = None" using Cons.prems(2) x by simp_all
  have first: "prefetch k f (Some d) (clk i) s = (Follows (allocated s), s1)"
    using prefetch_cold[OF ck, of n "Some d" "clk i"] f by (simp add: s1_def ttl_arg_def)
  have knot: "k \<notin> fst ` set rest" using Cons.prems(1) x by simp
  have d1: "distinct (map fst rest)" using Cons.prems(1) by simp
  have c1: "\<forall>k' \<in> fst ` set rest. cache s1 k' = None \<and> prefetchPromises s1 k' = None"
    using Cons.prems(2) knot by (auto simp: s1_def)
  have a1: "\<forall>x \<in> set rest. fst (snd x) = Async (fname (fst (snd x)))"
    using Cons.prems(3) by simp
  note IH = Cons.IH[OF d1 c1 a1, of "Suc i"]
  have unfold: "issue clk i (x # rest) s =
      (Follows (allocated s) # fst (issue clk (Suc i) rest s1), snd (issue clk (Suc i) rest s1))"
    using first x by (simp split: prod.splits)
  let ?s' = "snd (issue clk (Suc i) rest s1)"
  have al: "allocated s1 = Suc (allocated s)" by (simp add: s1_def)
  have r1: "fst (issue clk i (x # rest) s)
      = map Follows [allocated s ..< allocated s + length (x # rest)]"
    using IH unfold al by (simp add: upt_rec)
  have r2: "cache (snd (issue clk i (x # rest) s)) = cache s"
    using IH unfold by (simp add: s1_def)
  have r3: "allocated (snd (issue clk i (x # rest) s)) = allocated s + length (x # rest)"
    using IH unfold al by simp
  have r4: "invoked (snd (issue clk i (x # rest) s))
      = invoked s @ map (\<lambda>x. fname (fst (snd x))) (x # rest)"
    using IH unfold x f by (simp add: s1_def)
  have r7: "\<forall>p < allocated s. promises (snd (issue clk i (x # rest) s)) p = promises s p"
    using IH unfold al by (simp add: s1_def)
  have r8: "\<forall>k'. k' \<notin> fst ` set (x # rest) \<longrightarrow>
             prefetchPromises (snd (issue clk i (x # rest) s)) k' = prefetchPromises s k'"
    using IH unfold x by (simp add: s1_def)
  have r5: "\<forall>j < length (x # rest). promises (snd (issue clk i (x # rest) s)) (allocated s + j) =
             Some \<lparr>tkey = fst ((x # rest) ! j), tttl = snd (snd ((x # rest) ! j)), tstate = Pending\<rparr>"
  proof (intro allI impI)
    fix j assume j: "j < length (x # rest)"
    show "promises (snd (issue clk i (x # rest) s)) (allocated s + j) =
             Some \<lparr>tkey = fst ((x # rest) ! j), tttl = snd (snd ((x # rest) ! j)), tstate = Pending\<rparr>"
    proof (cases j)
      case 0
      have "promises ?s' (allocated s) = promises s1 (allocated s)"
        using IH al by simp
      then show ?thesis using 0 unfold x by (simp add: s1_def)
    next
      case (Suc j')
      then have "j' < length rest" using j by simp
      then have "promises ?s' (allocated s1 + j') =
             Some \<lparr>tkey = fst (rest ! j'), tttl = snd (snd (rest ! j')), tstate = Pending\<rparr>"
        using IH by blast
      then show ?thesis using Suc unfold al by simp
    qed
  qed
  have r6: "\<forall>j < length (x # rest). prefetchPromises (snd (issue clk i (x # rest) s)) (fst ((x # rest) ! j)) =
             Some (allocated s + j)"
  proof (intro allI impI)
    fix j assume j: "j < length (x # rest)"
    show "prefetchPromises (snd (issue clk i (x # rest) s)) (fst ((x # rest) ! j)) =
             Some (allocated s + j)"
    proof (cases j)
      case 0
      have "prefetchPromises ?s' k = prefetchPromises s1 k"
        using IH knot by blast
      then show ?thesis using 0 unfold x by (simp add: s1_def)
    next
      case (Suc j')
      then have "j' < length rest" using j by simp
      then have "prefetchPromises ?s' (fst (rest ! j')) = Some (allocated s1 + j')"
        using IH by blast
      then show ?thesis using Suc unfold al by simp
    qed
  qed
  from r1 r2 r3 r4 r5 r6 r7 r8 show ?case by blast
qed

subsection \<open>Runs of settlements\<close>

lemma settle_other_promise:
  "p \<noteq> q \<Longrightarrow> promises (settle q out t s) p = promises s p"
  by (simp add: settle_def set_entry_def Let_def split: option.splits outcome.splits)

lemma settle_keeps_key:
  "map_option tkey (promises (settle q out t s) p) = map_option tkey (promises s p)"
  by (simp add: settle_def set_entry_def Let_def split: option.splits outcome.splits)

lemma settle_other_key:
  assumes "map_option tkey (promises s q) \<noteq> Some k"
  shows "cache (settle q out t s) k = cache s k"
    and "prefetchPromises (settle q out t s) k = prefetchPromises s k"
  using assms
  by (auto simp: settle_def set_entry_def Let_def split: option.splits outcome.splits)

lemma settle_all_other_promise:
  "p \<notin> fst ` set evs \<Longrightarrow> promises (settle_all evs s) p = promises s p"
proof (induction evs arbitrary: s)
  case Nil
  then show ?case by simp
next
  case (Cons ev evs)
  obtain q out t where ev: "ev = (q, out, t)" by (cases ev)
  with Cons.prems have "p \<noteq> q" "p \<notin> fst ` set evs" by auto
  with Cons.IH[of "settle q out t s"] ev show ?case
    by (simp add: settle_other_promise)
qed

lemma settle_all_other_key:
  assumes "\<forall>q \<in> fst ` set evs. map_option tkey (promises s q) \<noteq> Some k"
  shows "cache (settle_all evs s) k = cache s k
       \<and> prefetchPromises (settle_all evs s) k = prefetchPromises s k"
  using assms
proof (induction evs arbitrary: s)
  case Nil
  then show ?case by simp
next
  case (Cons ev evs)
  obtain q out t where ev: "ev = (q, out, t)" by (cases ev)
  have here: "map_option tkey (promises s q) \<noteq> Some k" using Cons.prems ev by simp
  have later: "\<forall>q' \<in> fst ` set evs. map_option tkey (promises (settle q out t s) q') \<noteq> Some k"
    using Cons.prems by (simp add: settle_keeps_key)
  from Cons.IH[OF later] settle_other_key[OF here, of out t] ev show ?case by simp
qed

text \<open>
  A pending promise that settles once in a run, among settlements of promises for
  other keys: the key's cache entry and the promise's result are decided by that one
  settlement.
\<close>

lemma settle_all_decides:
  assumes "promises s p = Some \<lparr>tkey = k, tttl = d, tstate = Pending\<rparr>"
      and "distinct (map fst evs)"
      and "(p, out, t) \<in> set evs"
      and "\<forall>q \<in> fst ` set evs. q \<noteq> p \<longrightarrow> map_option tkey (promises s q) \<noteq> Some k"
  shows "cache (settle_all evs s) k =
           (case out of Resolves v \<Rightarrow> Some \<lparr>data = v, timestamp = t, ttl = d\<rparr>
                      | Rejects e \<Rightarrow> cache s k)
       \<and> prefetchPromises (settle_all evs s) k = None
       \<and> result_of (settle_all evs s) (Follows p) =
           (case out of Resolves v \<Rightarrow> Fulfilled v | Rejects e \<Rightarrow> Rejected e)"
  using assms
proof (induction evs arbitrary: s)
  case Nil
  then show ?case by simp
next
  case (Cons ev evs)
  obtain q o' t' where ev: "ev = (q, o', t')" by (cases ev)
  show ?case
  proof (cases "q = p")
    case True
    have notin: "p \<notin> fst ` set evs" using Cons.prems(2) ev True by simp
    then have same: "o' = out" "t' = t" using Cons.prems(3) ev True by force+
    let ?s1 = "settle p out t s"
    note fin = settle_pending[OF Cons.prems(1), of out t]
    have others: "\<forall>q' \<in> fst ` set evs. map_option tkey (promises ?s1 q') \<noteq> Some k"
    proof
      fix q' assume q': "q' \<in> fst ` set evs"
      then have "q' \<noteq> p" using notin by auto
      moreover have "q' \<in> fst ` set (ev # evs)" using q' by simp
      ultimately have "map_option tkey (promises s q') \<noteq> Some k"
        using Cons.prems(4) by blast
      then show "map_option tkey (promises ?s1 q') \<noteq> Some k"
        by (simp add: settle_keeps_key)
    qed
    note rest = settle_all_other_key[OF others] settle_all_other_promise[OF notin, of ?s1]
    have c: "cache (settle_all evs ?s1) k =
           (case out of Resolves v \<Rightarrow> Some \<lparr>data = v, timestamp = t, ttl = d\<rparr>
                      | Rejects e \<Rightarrow> cache s k)"
      using rest(1) fin(5) by (simp split: outcome.splits)
    have pp: "prefetchPromises (settle_all evs ?s1) k = None"
      using rest(1) fin(1) by simp
    have r: "result_of (settle_all evs ?s1) (Follows p) =
           (case out of Resolves v \<Rightarrow> Fulfilled v | Rejects e \<Rightarrow> Rejected e)"
      using rest(2) fin(4) by (simp add: result_of_def)
    from c pp r ev True same show ?thesis by simp
  next
    case False
    let ?s1 = "settle q o' t' s"
    have pend: "promises ?s1 p = Some \<lparr>tkey = k, tttl = d, tstate = Pending\<rparr>"
      using Cons.prems(1) False by (simp add: settle_other_promise)
    have dist: "distinct (map fst evs)" using Cons.prems(2) by simp
    have mem: "(p, out, t) \<in> set evs" using Cons.prems(3) ev False by auto
    have others: "\<forall>q' \<in> fst ` set evs. q' \<noteq> p \<longrightarrow> map_option tkey (promises ?s1 q') \<noteq> Some k"
      using Cons.prems(4) by (simp add: settle_keeps_key)
    have here: "map_option tkey (promises s q) \<noteq> Some k"
      using Cons.prems(4) ev False by simp
    from Cons.IH[OF pend dist mem others] settle_other_key(1)[OF here, of o' t'] ev
    show ?thesis by (simp split: outcome.splits)
  qed
qed

subsection \<open>The dashboard's task list\<close>

lemma prefetchTasks_length: "length (prefetchTasks u) = 8"
  by (simp add: prefetchTasks_def)

lemma prefetchTasks_keys: "map fst (prefetchTasks u) = map (\<lambda>r. cache_key r u) key_prefixes"
  by (simp add: prefetchTasks_def key_prefixes_def cache_key_def)

lemma prefetchTasks_distinct: "distinct (map fst (prefetchTasks u))"
  by (simp add: prefetchTasks_def)

lemma prefetchTasks_async:
  "\<forall>x \<in> set (prefetchTasks u). fst (snd x) = Async (fname (fst (snd x)))"
  by (simp add: prefetchTasks_def backendAPI_def)

lemma prefetchDashboard_healthy:
  "prefetchDashboard u (Healthy True) clk s =
     ((Fulfilled JUndefined, fst (issue clk 0 (prefetchTasks u) s)),
      snd (issue clk 0 (prefetchTasks u) s))"
  by (simp add: prefetchDashboard_def split: prod.splits)

text \<open>The state after a healthy \<open>prefetchDashboard\<close> on a service where its keys are cold.\<close>

lemma dashboard_issued:
  assumes cold: "\<forall>k \<in> fst ` set (prefetchTasks u). cache s k = None \<and> prefetchPromises s k = None"
  shows "fst (fst (prefetchDashboard u (Healthy True) clk s)) = Fulfilled JUndefined"
    and "snd (fst (prefetchDashboard u (Healthy True) clk s))
           = map Follows [allocated s ..< allocated s + 8]"
    and "cache (snd (prefetchDashboard u (Healthy True) clk s)) = cache s"
    and "invoked (snd (prefetchDashboard u (Healthy True) clk s))
           = invoked s @ map (\<lambda>x. fname (fst (snd x))) (prefetchTasks u)"
    and "\<forall>j < 8. promises (snd (prefetchDashboard u (Healthy True) clk s)) (allocated s + j) =
           Some \<lparr>tkey = fst (prefetchTasks u ! j), tttl = snd (snd (prefetchTasks u ! j)),
                 tstate = Pending\<rparr>"
    and "\<forall>j < 8. prefetchPromises (snd (prefetchDashboard u (Healthy True) clk s))
           (fst (prefetchTasks u ! j)) = Some (allocated s + j)"
    and "\<forall>k. k \<notin> fst ` set (prefetchTasks u) \<longrightarrow>
           prefetchPromises (snd (prefetchDashboard u (Healthy True) clk s)) k = prefetchPromises s k"
  using issue_cold[OF prefetchTasks_distinct cold prefetchTasks_async, of clk 0]
  by (simp_all add: prefetchDashboard_healthy prefetchTasks_length)

lemma dashboard_pending:
  assumes cold: "\<forall>k \<in> fst ` set (prefetchTasks u). cache s k = None \<and> prefetchPromises s k = None"
  shows "map (result_of (snd (prefetchDashboard u (Healthy True) clk s)))
           (snd (fst (prefetchDashboard u (Healthy True) clk s))) = replicate 8 Pending"
proof -
  let ?s1 = "snd (prefetchDashboard u (Healthy True) clk s)"
  have "\<forall>j < 8. result_of ?s1 (Follows (allocated s + j)) = Pending"
    using dashboard_issued(5)[OF cold, of clk] by (simp add: result_of_def)
  then have "map (result_of ?s1) (map Follows [allocated s ..< allocated s + 8]) = replicate 8 Pending"
    by (auto intro!: nth_equalityI simp: nth_append)
  then show ?thesis using dashboard_issued(2)[OF cold, of clk] by simp
qed

lemma dashboard_key_fate:
  assumes cold: "\<forall>k \<in> fst ` set (prefetchTasks u). cache s k = None \<and> prefetchPromises s k = None"
      and only: "fst ` set evs \<subseteq> {allocated s ..< allocated s + 8}"
      and once: "distinct (map fst evs)"
      and i: "i < 8"
      and ev: "(allocated s + i, out, t) \<in> set evs"
  shows "cache (settle_all evs (snd (prefetchDashboard u (Healthy True) clk s)))
           (fst (prefetchTasks u ! i)) =
           (case out of
              Resolves v \<Rightarrow> Some \<lparr>data = v, timestamp = t, ttl = snd (snd (prefetchTasks u ! i))\<rparr>
            | Rejects e \<Rightarrow> None)"
    and "result_of (settle_all evs (snd (prefetchDashboard u (Healthy True) clk s)))
           (snd (fst (prefetchDashboard u (Healthy True) clk s)) ! i) =
           (case out of Resolves v \<Rightarrow> Fulfilled v | Rejects e \<Rightarrow> Rejected e)"
proof -
  let ?s1 = "snd (prefetchDashboard u (Healthy True) clk s)"
  let ?k = "fst (prefetchTasks u ! i)"
  note iss = dashboard_issued[OF cold, of clk]
  have pend: "promises ?s1 (allocated s + i) =
      Some \<lparr>tkey = ?k, tttl = snd (snd (prefetchTasks u ! i)), tstate = Pending\<rparr>"
    using iss(5) i by simp
  have others: "\<forall>q \<in> fst ` set evs. q \<noteq> allocated s + i \<longrightarrow>
      map_option tkey (promises ?s1 q) \<noteq> Some ?k"
  proof (intro ballI impI)
    fix q assume q: "q \<in> fst ` set evs" and ne: "q \<noteq> allocated s + i"
    from q only obtain j where j: "q = allocated s + j" "j < 8"
      by (metis add.commute atLeastLessThan_iff le_Suc_ex nat_add_left_cancel_less subsetD)
    with ne have ji: "j \<noteq> i" by auto
    have "fst (prefetchTasks u ! j) \<noteq> fst (prefetchTasks u ! i)"
      using prefetchTasks_distinct[of u] j(2) i ji
      by (simp add: distinct_conv_nth prefetchTasks_length)
    moreover have "promises ?s1 q =
        Some \<lparr>tkey = fst (prefetchTasks u ! j), tttl = snd (snd (prefetchTasks u ! j)),
              tstate = Pending\<rparr>"
      using iss(5) j by simp
    ultimately show "map_option tkey (promises ?s1 q) \<noteq> Some ?k" by simp
  qed
  note dec = settle_all_decides[OF pend once ev others]
  have kin: "?k \<in> fst ` set (prefetchTasks u)"
    using i by (metis image_eqI nth_mem prefetchTasks_length)
  have "cache s ?k = None" using cold kin by blast
  then have c0: "cache ?s1 ?k = None" using iss(3) by simp
  show "cache (settle_all evs ?s1) ?k =
           (case out of
              Resolves v \<Rightarrow> Some \<lparr>data = v, timestamp = t, ttl = snd (snd (prefetchTasks u ! i))\<rparr>
            | Rejects e \<Rightarrow> None)"
    using dec c0 by (simp split: outcome.splits)
  show "result_of (settle_all evs ?s1)
           (snd (fst (prefetchDashboard u (Healthy True) clk s)) ! i) =
           (case out of Resolves v \<Rightarrow> Fulfilled v | Rejects e \<Rightarrow> Rejected e)"
    using dec iss(2) i by simp
qed

text \<open>
  C5. Let \<open>prefetchDashboard\<close> run with a healthy probe on a service where its eight
  keys are cold, and let the producers' promises then settle, each at most once, in any
  order and at any times. The method's own promise is fulfilled: it does not throw.
  A key whose producer rejected has no cache entry and \<open>get\<close> reports \<^verbatim>\<open>null\<close> for
  it, and only that call's promise is rejected. Every key whose producer resolved holds
  the value it resolved with, stamped with the time of its settlement and the time to
  live of its call, and its call's promise is fulfilled, whatever the other producers
  did; in particular when one rejects and the other seven resolve.
\<close>

theorem orchestration_isolation:
  assumes cold: "\<forall>k \<in> fst ` set (prefetchTasks u). cache s k = None \<and> prefetchPromises s k = None"
      and dash: "prefetchDashboard u (Healthy True) clk s = ((done, tasks), s1)"
      and only: "fst ` set evs \<subseteq> {allocated s ..< allocated s + 8}"
      and once: "distinct (map fst evs)"
      and bad: "j < 8 \<and> (allocated s + j, Rejects e, tj) \<in> set evs"
  shows "done = Fulfilled JUndefined
       \<and> cache (settle_all evs s1) (fst (prefetchTasks u ! j)) = None
       \<and> fst (get (fst (prefetchTasks u ! j)) t' (settle_all evs s1)) = JNull
       \<and> result_of (settle_all evs s1) (tasks ! j) = Rejected e
       \<and> (\<forall>i v t. i < 8 \<and> (allocated s + i, Resolves v, t) \<in> set evs \<longrightarrow>
            cache (settle_all evs s1) (fst (prefetchTasks u ! i)) =
              Some \<lparr>data = v, timestamp = t, ttl = snd (snd (prefetchTasks u ! i))\<rparr>
            \<and> result_of (settle_all evs s1) (tasks ! i) = Fulfilled v)"
proof -
  from dash have d: "done = fst (fst (prefetchDashboard u (Healthy True) clk s))"
    and t: "tasks = snd (fst (prefetchDashboard u (Healthy True) clk s))"
    and s1: "s1 = snd (prefetchDashboard u (Healthy True) clk s)" by simp_all
  have c1: "done = Fulfilled JUndefined"
    using dashboard_issued(1)[OF cold, of clk] d by simp
  from bad have j: "j < 8" and ej: "(allocated s + j, Rejects e, tj) \<in> set evs" by simp_all
  note fj = dashboard_key_fate[OF cold only once j ej, of clk]
  have c2: "cache (settle_all evs s1) (fst (prefetchTasks u ! j)) = None"
    using fj(1) s1 by simp
  have c3: "fst (get (fst (prefetchTasks u ! j)) t' (settle_all evs s1)) = JNull"
    using c2 by (simp add: get_def)
  have c4: "result_of (settle_all evs s1) (tasks ! j) = Rejected e"
    using fj(2) s1 t by simp
  have c5: "cache (settle_all evs s1) (fst (prefetchTasks u ! i)) =
              Some \<lparr>data = v, timestamp = t, ttl = snd (snd (prefetchTasks u ! i))\<rparr>
            \<and> result_of (settle_all evs s1) (tasks ! i) = Fulfilled v"
    if "i < 8 \<and> (allocated s + i, Resolves v, t) \<in> set evs" for i v t
  proof -
    from that have i: "i < 8" and ei: "(allocated s + i, Resolves v, t) \<in> set evs" by simp_all
    note fi = dashboard_key_fate[OF cold only once i ei, of clk]
    from fi s1 \<open>tasks = _\<close> show ?thesis by simp
  qed
  from c1 c2 c3 c4 c5 show ?thesis by blast
qed

theorem orchestration_isolation_witness:
  "fst (fst (prefetchDashboard ''u1'' (Healthy True) (steady 0) new_service)) = Fulfilled JUndefined
   \<and> cache (settle_all example_settlements
        (snd (prefetchDashboard ''u1'' (Healthy True) (steady 0) new_service)))
        ''transactions-stats:u1'' = None
   \<and> cache (settle_all example_settlements
        (snd (prefetchDashboard ''u1'' (Healthy True) (steady 0) new_service)))
        ''accounts:u1'' = Some \<lparr>data = JArr [JStr ''acc-1''], timestamp = 20, ttl = 300000\<rparr>
   \<and> cache (settle_all example_settlements
        (snd (prefetchDashboard ''u1'' (Healthy True) (steady 0) new_service)))
        ''transactions-recommendations:u1''
        = Some \<lparr>data = JArr [JStr ''save more''], timestamp = 40, ttl = 300000\<rparr>
   \<and> cache (settle_all example_settlements
        (snd (prefetchDashboard ''u1'' (Healthy True) (steady 0) new_service)))
        ''privacy-score:u1'' = Some \<lparr>data = JNum 82, timestamp = 25, ttl = 600000\<rparr>"
proof -
  let ?R = "prefetchDashboard ''u1'' (Healthy True) (steady 0) new_service"
  have cold: "\<forall>k \<in> fst ` set (prefetchTasks ''u1'').
      cache new_service k = None \<and> prefetchPromises new_service k = None"
    by (simp add: new_service_def)
  have dash: "?R = ((fst (fst ?R), snd (fst ?R)), snd ?R)" by simp
  have a: "allocated new_service = 0" by (simp add: new_service_def)
  have only: "fst ` set example_settlements
      \<subseteq> {allocated new_service ..< allocated new_service + 8}"
    by (simp add: example_settlements_def a)
  have once: "distinct (map fst example_settlements)"
    by (simp add: example_settlements_def)
  have bad: "3 < (8::nat) \<and> (allocated new_service + 3, Rejects (JStr ''HTTP 500''), 10)
      \<in> set example_settlements"
    by (simp add: example_settlements_def a)
  note w = orchestration_isolation[OF cold dash only once bad]
  have m0: "0 < (8::nat) \<and> (allocated new_service + 0, Resolves (JArr [JStr ''acc-1'']), 20)
      \<in> set example_settlements"
    by (simp add: example_settlements_def a)
  have m4: "4 < (8::nat) \<and> (allocated new_service + 4, Resolves (JArr [JStr ''save more'']), 40)
      \<in> set example_settlements"
    by (simp add: example_settlements_def a)
  have m7: "7 < (8::nat) \<and> (allocated new_service + 7, Resolves (JNum 82), 25)
      \<in> set example_settlements"
    by (simp add: example_settlements_def a)
  have k: "fst (prefetchTasks ''u1'' ! 3) = ''transactions-stats:u1''"
    "fst (prefetchTasks ''u1'' ! 0) = ''accounts:u1''"
    "snd (snd (prefetchTasks ''u1'' ! 0)) = 300000"
    "fst (prefetchTasks ''u1'' ! 4) = ''transactions-recommendations:u1''"
    "snd (snd (prefetchTasks ''u1'' ! 4)) = 300000"
    "fst (prefetchTasks ''u1'' ! 7) = ''privacy-score:u1''"
    "snd (snd (prefetchTasks ''u1'' ! 7)) = 600000"
    by (simp_all add: prefetchTasks_def)
  from w have "fst (fst ?R) = Fulfilled JUndefined" by blast
  moreover from w k have "cache (settle_all example_settlements (snd ?R))
      ''transactions-stats:u1'' = None" by metis
  moreover from w m0 k have "cache (settle_all example_settlements (snd ?R))
      ''accounts:u1'' = Some \<lparr>data = JArr [JStr ''acc-1''], timestamp = 20, ttl = 300000\<rparr>"
    by metis
  moreover from w m4 k have "cache (settle_all example_settlements (snd ?R))
      ''transactions-recommendations:u1''
      = Some \<lparr>data = JArr [JStr ''save more''], timestamp = 40, ttl = 300000\<rparr>"
    by metis
  moreover from w m7 k have "cache (settle_all example_settlements (snd ?R))
      ''privacy-score:u1'' = Some \<lparr>data = JNum 82, timestamp = 25, ttl = 600000\<rparr>"
    by metis
  ultimately show ?thesis by blast
qed

text \<open>
  C3 as stated fails. On a new service with a healthy probe, at the end of the step in
  which \<open>prefetchDashboard\<close> fulfils its own promise all eight promises of the calls it
  issued are still pending: the join built by \<^verbatim>\<open>Promise.allSettled\<close> is not awaited.
\<close>

theorem dashboard_join_not_awaited:
  "fst (fst (prefetchDashboard ''u1'' (Healthy True) (steady 0) new_service)) = Fulfilled JUndefined
   \<and> map (result_of (snd (prefetchDashboard ''u1'' (Healthy True) (steady 0) new_service)))
        (snd (fst (prefetchDashboard ''u1'' (Healthy True) (steady 0) new_service)))
      = [Pending, Pending, Pending, Pending, Pending, Pending, Pending, Pending]"
proof -
  have cold: "\<forall>k \<in> fst ` set (prefetchTasks ''u1'').
      cache new_service k = None \<and> prefetchPromises new_service k = None"
    by (simp add: new_service_def)
  have r: "replicate 8 Pending = [Pending, Pending, Pending, Pending, Pending, Pending, Pending, Pending]"
    by (simp add: eval_nat_numeral)
  from dashboard_issued(1)[OF cold, of "steady 0"] dashboard_pending[OF cold, of "steady 0"] r
  show ?thesis by simp
qed

subsection \<open>Issuing calls on any service\<close>

lemma prefetch_grows:
  "allocated s \<le> allocated (snd (prefetch k f d t s))"
  "p < allocated s \<Longrightarrow> promises (snd (prefetch k f d t s)) p = promises s p"
proof -
  obtain c s1 where g: "get k t s = (c, s1)" by (cases "get k t s")
  have f: "promises s1 = promises s" "allocated s1 = allocated s"
    using get_fields[of k t s] g by simp_all
  show "allocated s \<le> allocated (snd (prefetch k f d t s))"
    using g f by (simp add: prefetch_def split: option.splits fetchFn.splits)
  show "p < allocated s \<Longrightarrow> promises (snd (prefetch k f d t s)) p = promises s p"
    using g f by (simp add: prefetch_def split: option.splits fetchFn.splits)
qed

lemma issue_Cons:
  "issue clk n ((k, f, d) # rest) s =
     (fst (prefetch k f (Some d) (clk n) s)
        # fst (issue clk (Suc n) rest (snd (prefetch k f (Some d) (clk n) s))),
      snd (issue clk (Suc n) rest (snd (prefetch k f (Some d) (clk n) s))))"
  by (simp split: prod.splits)

lemma issue_grows:
  "allocated s \<le> allocated (snd (issue clk n tasks s))
   \<and> (\<forall>p < allocated s. promises (snd (issue clk n tasks s)) p = promises s p)"
proof (induction tasks arbitrary: s n)
  case Nil
  then show ?case by simp
next
  case (Cons x rest)
  obtain k f d where x: "x = (k, f, d)" by (cases x)
  let ?s1 = "snd (prefetch k f (Some d) (clk n) s)"
  have unfold: "snd (issue clk n (x # rest) s) = snd (issue clk (Suc n) rest ?s1)"
    using x by (simp only: issue_Cons snd_conv)
  note g = prefetch_grows[where s = s and k = k and f = f and d = "Some d" and t = "clk n"]
  note IH = Cons.IH[of ?s1 "Suc n"]
  have a: "allocated s \<le> allocated (snd (issue clk (Suc n) rest ?s1))"
    using g(1) IH by simp
  have b: "promises (snd (issue clk (Suc n) rest ?s1)) p = promises s p"
    if "p < allocated s" for p
  proof -
    from that g(1) have "p < allocated ?s1" by simp
    with IH have "promises (snd (issue clk (Suc n) rest ?s1)) p = promises ?s1 p" by blast
    with g(2)[OF that] show ?thesis by simp
  qed
  from a b unfold show ?case by simp
qed

lemma issue_length: "length (fst (issue clk n tasks s)) = length tasks"
proof (induction tasks arbitrary: s n)
  case Nil
  then show ?case by simp
next
  case (Cons x rest)
  obtain k f d where x: "x = (k, f, d)" by (cases x)
  show ?case using Cons.IH x by (simp only: issue_Cons fst_conv list.size length_Cons)
qed

lemma issue_append:
  "issue clk n (xs @ ys) s =
     (fst (issue clk n xs s) @ fst (issue clk (n + length xs) ys (snd (issue clk n xs s))),
      snd (issue clk (n + length xs) ys (snd (issue clk n xs s))))"
proof (induction xs arbitrary: s n)
  case Nil
  then show ?case by simp
next
  case (Cons x rest)
  obtain k f d where x: "x = (k, f, d)" by (cases x)
  show ?case using Cons.IH[of "Suc n" "snd (prefetch k f (Some d) (clk n) s)"] x
    by (simp del: issue.simps add: issue_Cons)
qed

text \<open>Call number \<open>i\<close> of a list of calls, seen from the state the earlier calls left.\<close>

lemma issue_nth:
  assumes "i < length T"
  shows "fst (issue clk 0 T s) ! i =
           fst (prefetch (fst (T ! i)) (fst (snd (T ! i))) (Some (snd (snd (T ! i)))) (clk i)
                 (snd (issue clk 0 (take i T) s)))"
    and "snd (issue clk 0 T s) =
           snd (issue clk (Suc i) (drop (Suc i) T)
                 (snd (prefetch (fst (T ! i)) (fst (snd (T ! i))) (Some (snd (snd (T ! i)))) (clk i)
                        (snd (issue clk 0 (take i T) s)))))"
proof -
  obtain k f d where x: "T ! i = (k, f, d)" by (cases "T ! i")
  let ?si = "snd (issue clk 0 (take i T) s)"
  have T: "T = take i T @ ((k, f, d) # drop (Suc i) T)"
    using id_take_nth_drop[OF assms] x by simp
  have len: "length (take i T) = i" using assms by simp
  have li: "length (fst (issue clk 0 (take i T) s)) = i"
    using issue_length[of clk 0 "take i T" s] len by simp
  have "issue clk 0 T s = issue clk 0 (take i T @ ((k, f, d) # drop (Suc i) T)) s"
    using T by simp
  also have "\<dots> = (fst (issue clk 0 (take i T) s) @ fst (issue clk i ((k, f, d) # drop (Suc i) T) ?si),
      snd (issue clk i ((k, f, d) # drop (Suc i) T) ?si))"
    using issue_append[of clk 0 "take i T" "(k, f, d) # drop (Suc i) T" s] len by simp
  finally have whole: "issue clk 0 T s =
      (fst (issue clk 0 (take i T) s) @ fst (issue clk i ((k, f, d) # drop (Suc i) T) ?si),
       snd (issue clk i ((k, f, d) # drop (Suc i) T) ?si))" .
  have hd: "fst (issue clk i ((k, f, d) # drop (Suc i) T) ?si) ! 0
      = fst (prefetch k f (Some d) (clk i) ?si)"
    by (simp del: issue.simps add: issue_Cons)
  have tl: "snd (issue clk i ((k, f, d) # drop (Suc i) T) ?si)
      = snd (issue clk (Suc i) (drop (Suc i) T) (snd (prefetch k f (Some d) (clk i) ?si)))"
    by (simp del: issue.simps add: issue_Cons)
  show "fst (issue clk 0 T s) ! i =
           fst (prefetch (fst (T ! i)) (fst (snd (T ! i))) (Some (snd (snd (T ! i)))) (clk i) ?si)"
    using whole li hd x by (simp add: nth_append)
  show "snd (issue clk 0 T s) =
           snd (issue clk (Suc i) (drop (Suc i) T)
                 (snd (prefetch (fst (T ! i)) (fst (snd (T ! i))) (Some (snd (snd (T ! i)))) (clk i) ?si)))"
    using whole tl x by simp
qed

lemma starts_fetch_iff:
  "starts_fetch k t s \<longleftrightarrow> fst (get k t s) = JNull \<and> prefetchPromises s k = None"
proof -
  obtain c s1 where g: "get k t s = (c, s1)" by (cases "get k t s")
  have "prefetchPromises s1 = prefetchPromises s" using get_fields(1)[of k t s] g by simp
  with g show ?thesis by (simp add: starts_fetch_def)
qed

lemma allSettled_pending:
  assumes "i < length rets" and "result_of s (rets ! i) = Pending"
  shows "allSettled s rets = Pending"
proof -
  have "rets ! i \<in> set rets" using assms(1) by simp
  then have "list_ex (unsettled s) rets"
    using assms(2) by (auto simp: list_ex_iff unsettled_def)
  then show ?thesis by (simp add: allSettled_def)
qed

text \<open>What call number \<open>i\<close> of the dashboard does when it starts a fetch.\<close>

lemma dashboard_call_starts:
  assumes i: "i < 8"
      and st: "starts_fetch (fst (prefetchTasks u ! i)) (clk i) (state_before i u clk s)"
  shows "snd (fst (prefetchDashboard u (Healthy True) clk s)) ! i
           = Follows (allocated (state_before i u clk s))"
    and "promises (snd (prefetchDashboard u (Healthy True) clk s)) (allocated (state_before i u clk s))
           = Some \<lparr>tkey = fst (prefetchTasks u ! i), tttl = snd (snd (prefetchTasks u ! i)),
                   tstate = Pending\<rparr>"
    and "invoked (state_before (Suc i) u clk s)
           = invoked (state_before i u clk s) @ [fname (fst (snd (prefetchTasks u ! i)))]"
proof -
  let ?T = "prefetchTasks u"
  let ?si = "state_before i u clk s"
  let ?k = "fst (?T ! i)" and ?f = "fst (snd (?T ! i))" and ?d = "snd (snd (?T ! i))"
  have len: "i < length ?T" using i by (simp add: prefetchTasks_length)
  have "?T ! i \<in> set ?T" using len by simp
  then have async: "?f = Async (fname ?f)" using prefetchTasks_async[of u] by blast
  from st have cold: "fst (get ?k (clk i) ?si) = JNull" and idle: "prefetchPromises ?si ?k = None"
    by (simp_all add: starts_fetch_iff)
  note call = prefetch_starts[OF cold idle, of "fname ?f" "Some ?d"]
  have call': "prefetch ?k ?f (Some ?d) (clk i) ?si =
     (Follows (allocated ?si),
      (snd (get ?k (clk i) ?si))\<lparr>prefetchPromises := (prefetchPromises ?si)(?k \<mapsto> allocated ?si),
         promises := (promises ?si)(allocated ?si \<mapsto> \<lparr>tkey = ?k, tttl = ?d, tstate = Pending\<rparr>),
         allocated := Suc (allocated ?si),
         invoked := invoked ?si @ [fname ?f]\<rparr>)"
    using call async by (simp add: ttl_arg_def)
  let ?s' = "snd (prefetch ?k ?f (Some ?d) (clk i) ?si)"
  note nth = issue_nth[OF len, of clk s]
  have r: "fst (issue clk 0 ?T s) ! i = Follows (allocated ?si)"
    using nth(1) call' by (simp add: state_before_def)
  have fin: "snd (issue clk 0 ?T s) = snd (issue clk (Suc i) (drop (Suc i) ?T) ?s')"
    using nth(2) by (simp add: state_before_def)
  have p': "promises ?s' (allocated ?si) = Some \<lparr>tkey = ?k, tttl = ?d, tstate = Pending\<rparr>"
    and a': "allocated ?si < allocated ?s'"
    using call' by simp_all
  have keep: "promises (snd (issue clk (Suc i) (drop (Suc i) ?T) ?s')) (allocated ?si)
      = promises ?s' (allocated ?si)"
    using issue_grows[of ?s' clk "Suc i" "drop (Suc i) ?T"] a' by blast
  show "snd (fst (prefetchDashboard u (Healthy True) clk s)) ! i = Follows (allocated ?si)"
    using r by (simp add: prefetchDashboard_healthy)
  show "promises (snd (prefetchDashboard u (Healthy True) clk s)) (allocated ?si)
           = Some \<lparr>tkey = ?k, tttl = ?d, tstate = Pending\<rparr>"
    using fin keep p' by (simp add: prefetchDashboard_healthy)
  have "take (Suc i) ?T = take i ?T @ [?T ! i]" using len by (rule take_Suc_conv_app_nth)
  then have "state_before (Suc i) u clk s = snd (issue clk 0 (take i ?T @ [?T ! i]) s)"
    by (simp add: state_before_def)
  also have "\<dots> = snd (issue clk i [?T ! i] ?si)"
    using issue_append[of clk 0 "take i ?T" "[?T ! i]" s] len by (simp add: state_before_def)
  also have "\<dots> = ?s'"
    using issue_Cons[of clk i ?k ?f ?d "[]" ?si] by simp
  finally have "state_before (Suc i) u clk s = ?s'" .
  then show "invoked (state_before (Suc i) u clk s) = invoked ?si @ [fname ?f]"
    using call' by simp
qed

text \<open>
  C3, amended. On any service, \<open>prefetchDashboard\<close> with a healthy probe issues its eight
  calls and ends with its own promise fulfilled in that same step; the join over the
  calls is not waited for. Every call that started a fetch (it found nothing but
  \<^verbatim>\<open>null\<close> in the cache and no fetch in flight, and invoked its producer) is still
  pending at that point, and so is the join; such a call settles afterwards, when its own
  producer does.
\<close>

theorem dashboard_returns_at_once:
  "fst (fst (prefetchDashboard u (Healthy True) clk s)) = Fulfilled JUndefined
   \<and> length (snd (fst (prefetchDashboard u (Healthy True) clk s))) = 8
   \<and> (\<forall>i. i < 8 \<and> starts_fetch (fst (prefetchTasks u ! i)) (clk i) (state_before i u clk s) \<longrightarrow>
        invoked (state_before (Suc i) u clk s)
          = invoked (state_before i u clk s) @ [fname (fst (snd (prefetchTasks u ! i)))]
        \<and> snd (fst (prefetchDashboard u (Healthy True) clk s)) ! i
          = Follows (allocated (state_before i u clk s))
        \<and> result_of (snd (prefetchDashboard u (Healthy True) clk s))
            (snd (fst (prefetchDashboard u (Healthy True) clk s)) ! i) = Pending
        \<and> allSettled (snd (prefetchDashboard u (Healthy True) clk s))
            (snd (fst (prefetchDashboard u (Healthy True) clk s))) = Pending
        \<and> (\<forall>out t. result_of
              (settle (allocated (state_before i u clk s)) out t
                 (snd (prefetchDashboard u (Healthy True) clk s)))
              (snd (fst (prefetchDashboard u (Healthy True) clk s)) ! i)
            = (case out of Resolves v \<Rightarrow> Fulfilled v | Rejects e \<Rightarrow> Rejected e)))"
proof -
  let ?R = "prefetchDashboard u (Healthy True) clk s"
  have ful: "fst (fst ?R) = Fulfilled JUndefined"
    by (simp add: prefetchDashboard_healthy)
  have len: "length (snd (fst ?R)) = 8"
    by (simp add: prefetchDashboard_healthy issue_length prefetchTasks_length)
  have each: "invoked (state_before (Suc i) u clk s)
          = invoked (state_before i u clk s) @ [fname (fst (snd (prefetchTasks u ! i)))]
        \<and> snd (fst ?R) ! i = Follows (allocated (state_before i u clk s))
        \<and> result_of (snd ?R) (snd (fst ?R) ! i) = Pending
        \<and> allSettled (snd ?R) (snd (fst ?R)) = Pending
        \<and> (\<forall>out t. result_of (settle (allocated (state_before i u clk s)) out t (snd ?R))
              (snd (fst ?R) ! i)
            = (case out of Resolves v \<Rightarrow> Fulfilled v | Rejects e \<Rightarrow> Rejected e))"
    if h: "i < 8 \<and> starts_fetch (fst (prefetchTasks u ! i)) (clk i) (state_before i u clk s)" for i
  proof -
    from h have i: "i < 8"
      and st: "starts_fetch (fst (prefetchTasks u ! i)) (clk i) (state_before i u clk s)"
      by simp_all
    note c = dashboard_call_starts[OF i st]
    have pend: "result_of (snd ?R) (snd (fst ?R) ! i) = Pending"
      using c(1) c(2) by (simp add: result_of_def)
    have join: "allSettled (snd ?R) (snd (fst ?R)) = Pending"
      using allSettled_pending[of i "snd (fst ?R)" "snd ?R"] i len pend by simp
    have later: "result_of (settle (allocated (state_before i u clk s)) out t (snd ?R))
              (snd (fst ?R) ! i)
            = (case out of Resolves v \<Rightarrow> Fulfilled v | Rejects e \<Rightarrow> Rejected e)" for out t
      using settle_pending(4)[OF c(2), of out t] c(1) by simp
    from c(3) c(1) pend join later show ?thesis by blast
  qed
  from ful len each show ?thesis by blast
qed

theorem dashboard_returns_at_once_witness:
  "invoked (state_before 1 ''u2'' (steady 7) warm_service) = []
   \<and> invoked (state_before 2 ''u2'' (steady 7) warm_service) = [''getAccountsSummary(u2)'']
   \<and> fst (fst (prefetchDashboard ''u2'' (Healthy True) (steady 7) warm_service))
       = Fulfilled JUndefined
   \<and> snd (fst (prefetchDashboard ''u2'' (Healthy True) (steady 7) warm_service)) ! 1 = Follows 0
   \<and> result_of (snd (prefetchDashboard ''u2'' (Healthy True) (steady 7) warm_service)) (Follows 0)
       = Pending
   \<and> allSettled (snd (prefetchDashboard ''u2'' (Healthy True) (steady 7) warm_service))
        (snd (fst (prefetchDashboard ''u2'' (Healthy True) (steady 7) warm_service))) = Pending
   \<and> result_of (settle 0 (Resolves (JNum 1)) 60
        (snd (prefetchDashboard ''u2'' (Healthy True) (steady 7) warm_service))) (Follows 0)
       = Fulfilled (JNum 1)"
proof -
  let ?R = "prefetchDashboard ''u2'' (Healthy True) (steady 7) warm_service"
  have before: "state_before 1 ''u2'' (steady 7) warm_service = warm_service"
    by (simp add: state_before_def prefetchTasks_def prefetch_def get_def warm_service_def
        set_entry_def new_service_def ttl_arg_def DEFAULT_TTL_def steady_def)
  have a: "allocated warm_service = 0" "invoked warm_service = []"
    by (simp_all add: warm_service_def set_entry_def new_service_def)
  have k: "fst (prefetchTasks ''u2'' ! 1) = ''accounts-summary:u2''"
    "fname (fst (snd (prefetchTasks ''u2'' ! 1))) = ''getAccountsSummary(u2)''"
    by (simp_all add: prefetchTasks_def backendAPI_def)
  have st: "starts_fetch (fst (prefetchTasks ''u2'' ! 1)) (steady 7 1)
      (state_before 1 ''u2'' (steady 7) warm_service)"
    unfolding before k
    by (simp add: starts_fetch_def get_def warm_service_def set_entry_def new_service_def)
  have h: "1 < (8::nat) \<and> starts_fetch (fst (prefetchTasks ''u2'' ! 1)) (steady 7 1)
      (state_before 1 ''u2'' (steady 7) warm_service)"
    using st by simp
  have two: "Suc 1 = 2" by simp
  note w = dashboard_returns_at_once[of "''u2''" "steady 7" warm_service]
  from w have c1: "fst (fst ?R) = Fulfilled JUndefined" by blast
  from w h have c2: "invoked (state_before (Suc 1) ''u2'' (steady 7) warm_service)
          = invoked (state_before 1 ''u2'' (steady 7) warm_service)
            @ [fname (fst (snd (prefetchTasks ''u2'' ! 1)))]
      \<and> snd (fst ?R) ! 1 = Follows (allocated (state_before 1 ''u2'' (steady 7) warm_service))
      \<and> result_of (snd ?R) (snd (fst ?R) ! 1) = Pending
      \<and> allSettled (snd ?R) (snd (fst ?R)) = Pending
      \<and> result_of (settle (allocated (state_before 1 ''u2'' (steady 7) warm_service))
            (Resolves (JNum 1)) 60 (snd ?R)) (snd (fst ?R) ! 1)
          = (case Resolves (JNum 1) of Resolves v \<Rightarrow> Fulfilled v | Rejects e \<Rightarrow> Rejected e)"
    by blast
  from c1 c2 show ?thesis
    unfolding before a k two by auto
qed

text \<open>
  C7 as stated fails: the keys of the eight calls are not those built from the resource
  names of the interface list. For user \<open>u1\<close> nothing is registered under
  \<open>transaction-stats:u1\<close>; the call for the transaction statistics is registered under
  \<open>transactions-stats:u1\<close>.
\<close>

theorem issued_keys_differ_from_spec:
  "map fst (prefetchTasks ''u1'') \<noteq> spec_keys ''u1''
   \<and> prefetchPromises (snd (prefetchDashboard ''u1'' (Healthy True) (steady 0) new_service))
        ''transaction-stats:u1'' = None
   \<and> prefetchPromises (snd (prefetchDashboard ''u1'' (Healthy True) (steady 0) new_service))
        ''transactions-stats:u1'' = Some 3"
proof -
  have cold: "\<forall>k \<in> fst ` set (prefetchTasks ''u1'').
      cache new_service k = None \<and> prefetchPromises new_service k = None"
    by (simp add: new_service_def)
  have a: "allocated new_service = 0" "prefetchPromises new_service ''transaction-stats:u1'' = None"
    by (simp_all add: new_service_def)
  have k: "fst (prefetchTasks ''u1'' ! 3) = ''transactions-stats:u1''"
    "''transaction-stats:u1'' \<notin> fst ` set (prefetchTasks ''u1'')"
    by (simp_all add: prefetchTasks_def)
  have d: "map fst (prefetchTasks ''u1'') \<noteq> spec_keys ''u1''"
    by (simp add: prefetchTasks_def spec_keys_def spec_resource_names_def cache_key_def)
  note iss = dashboard_issued[OF cold, of "steady 0"]
  have n: "prefetchPromises (snd (prefetchDashboard ''u1'' (Healthy True) (steady 0) new_service))
        ''transaction-stats:u1'' = None"
    using iss(7) k(2) a(2) by simp
  have "(3::nat) < 8" by simp
  with iss(6) have "prefetchPromises (snd (prefetchDashboard ''u1'' (Healthy True) (steady 0) new_service))
        (fst (prefetchTasks ''u1'' ! 3)) = Some (allocated new_service + 3)" by blast
  with k(1) a(1) have y: "prefetchPromises (snd (prefetchDashboard ''u1'' (Healthy True) (steady 0) new_service))
        ''transactions-stats:u1'' = Some 3" by simp
  from d n y show ?thesis by blast
qed

text \<open>
  C7, amended. For every user, \<open>prefetchDashboard\<close> issues its eight calls, in this
  order, under the keys \<open>accounts\<close>, \<open>accounts-summary\<close>, \<open>transactions\<close>,
  \<open>transactions-stats\<close>, \<open>transactions-recommendations\<close>, \<open>savings-summary\<close>,
  \<open>ai-insights\<close> and \<open>privacy-score\<close>, each followed by a colon and the user
  identifier. On a service where these keys are cold, the call number \<open>j\<close> registers its
  fetch under the key number \<open>j\<close>, and no other key of the table changes.
\<close>

theorem dashboard_keys:
  "map fst (prefetchTasks u) = map (\<lambda>r. cache_key r u) key_prefixes
   \<and> prefetchDashboard u (Healthy True) clk s =
       ((Fulfilled JUndefined, fst (issue clk 0 (prefetchTasks u) s)),
        snd (issue clk 0 (prefetchTasks u) s))
   \<and> ((\<forall>k \<in> fst ` set (prefetchTasks u). cache s k = None \<and> prefetchPromises s k = None) \<longrightarrow>
        (\<forall>j < 8. prefetchPromises (snd (prefetchDashboard u (Healthy True) clk s))
                   (cache_key (key_prefixes ! j) u) = Some (allocated s + j))
        \<and> (\<forall>k. k \<notin> set (map (\<lambda>r. cache_key r u) key_prefixes) \<longrightarrow>
              prefetchPromises (snd (prefetchDashboard u (Healthy True) clk s)) k
                = prefetchPromises s k))"
proof -
  have keys: "map fst (prefetchTasks u) = map (\<lambda>r. cache_key r u) key_prefixes"
    by (rule prefetchTasks_keys)
  have nth: "fst (prefetchTasks u ! j) = cache_key (key_prefixes ! j) u" if "j < 8" for j
  proof -
    have "map fst (prefetchTasks u) ! j = map (\<lambda>r. cache_key r u) key_prefixes ! j"
      using keys by simp
    moreover have "length key_prefixes = 8" by (simp add: key_prefixes_def)
    ultimately show ?thesis using that by (simp add: prefetchTasks_length)
  qed
  have img: "fst ` set (prefetchTasks u) = set (map (\<lambda>r. cache_key r u) key_prefixes)"
    using keys by (metis set_map)
  have reg: "(\<forall>j < 8. prefetchPromises (snd (prefetchDashboard u (Healthy True) clk s))
                   (cache_key (key_prefixes ! j) u) = Some (allocated s + j))
        \<and> (\<forall>k. k \<notin> set (map (\<lambda>r. cache_key r u) key_prefixes) \<longrightarrow>
              prefetchPromises (snd (prefetchDashboard u (Healthy True) clk s)) k
                = prefetchPromises s k)"
    if cold: "\<forall>k \<in> fst ` set (prefetchTasks u). cache s k = None \<and> prefetchPromises s k = None"
    using dashboard_issued(6)[OF cold, of clk] dashboard_issued(7)[OF cold, of clk] nth img
    by simp
  from keys prefetchDashboard_healthy[of u clk s] reg show ?thesis by blast
qed

theorem dashboard_keys_witness:
  "map fst (prefetchTasks ''u1'') =
     [''accounts:u1'', ''accounts-summary:u1'', ''transactions:u1'', ''transactions-stats:u1'',
      ''transactions-recommendations:u1'', ''savings-summary:u1'', ''ai-insights:u1'',
      ''privacy-score:u1'']
   \<and> prefetchPromises (snd (prefetchDashboard ''u1'' (Healthy True) (steady 0) new_service))
        ''ai-insights:u1'' = Some 6
   \<and> prefetchPromises (snd (prefetchDashboard ''u1'' (Healthy True) (steady 0) new_service))
        ''comprehensive-insights:u1'' = None"
proof -
  have cold: "\<forall>k \<in> fst ` set (prefetchTasks ''u1'').
      cache new_service k = None \<and> prefetchPromises new_service k = None"
    by (simp add: new_service_def)
  have a: "allocated new_service = 0"
    "prefetchPromises new_service ''comprehensive-insights:u1'' = None"
    by (simp_all add: new_service_def)
  have k: "map (\<lambda>r. cache_key r ''u1'') key_prefixes =
     [''accounts:u1'', ''accounts-summary:u1'', ''transactions:u1'', ''transactions-stats:u1'',
      ''transactions-recommendations:u1'', ''savings-summary:u1'', ''ai-insights:u1'',
      ''privacy-score:u1'']"
    "cache_key (key_prefixes ! 6) ''u1'' = ''ai-insights:u1''"
    by (simp_all add: key_prefixes_def cache_key_def)
  have out: "''comprehensive-insights:u1'' \<notin> set (map (\<lambda>r. cache_key r ''u1'') key_prefixes)"
    by (simp add: key_prefixes_def cache_key_def)
  have six: "(6::nat) < 8" by simp
  note w = dashboard_keys[of "''u1''" "steady 0" new_service]
  from w k(1) have "map fst (prefetchTasks ''u1'') =
     [''accounts:u1'', ''accounts-summary:u1'', ''transactions:u1'', ''transactions-stats:u1'',
      ''transactions-recommendations:u1'', ''savings-summary:u1'', ''ai-insights:u1'',
      ''privacy-score:u1'']" by simp
  moreover from w cold six have "prefetchPromises
      (snd (prefetchDashboard ''u1'' (Healthy True) (steady 0) new_service))
      (cache_key (key_prefixes ! 6) ''u1'') = Some (allocated new_service + 6)" by blast
  moreover from w cold out have "prefetchPromises
      (snd (prefetchDashboard ''u1'' (Healthy True) (steady 0) new_service))
      ''comprehensive-insights:u1'' = prefetchPromises new_service ''comprehensive-insights:u1''"
    by blast
  ultimately show ?thesis using a k(2) by simp
qed

end
